theory Spec2Isabelle
  imports Complex_Main "HOL-Library.Multiset"
begin

section \<open>Sudoku by simulated annealing: the model of Recuit.py\<close>

text \<open>
  A grid is the 9x9 numpy array of the source, kept as a list of rows. A cell is a
  coordinate pair \<open>[x, y]\<close>: row first, column second. The caller reshapes its input to
  (9, 9) before the solver sees it, so every grid the solver handles satisfies
  \<open>is_grid\<close>; reads and writes are stated for such grids.
\<close>

type_synonym cell = "nat \<times> nat"
type_synonym grid = "int list list"

definition is_grid :: "grid \<Rightarrow> bool" where
  "is_grid g = (length g = 9 \<and> list_all (\<lambda>r. length r = 9) g)"

definition cell_get :: "grid \<Rightarrow> cell \<Rightarrow> int" where
  "cell_get g c = g ! fst c ! snd c"

definition cell_set :: "grid \<Rightarrow> cell \<Rightarrow> int \<Rightarrow> grid" where
  "cell_set g c v = g[fst c := (g ! fst c)[snd c := v]]"

definition all_cells :: "cell list" where
  "all_cells = [(i, j). i \<leftarrow> [0..<9], j \<leftarrow> [0..<9]]"

subsection \<open>blocks_index\<close>

definition block_cells :: "nat \<Rightarrow> nat \<Rightarrow> cell list" where
  "block_cells row_start column_start =
     [(x, y). x \<leftarrow> [row_start..<row_start + 3], y \<leftarrow> [column_start..<column_start + 3]]"

definition blocks_index :: "cell list list" where
  "blocks_index =
     map (\<lambda>row. let row_start = 3 * (row mod 3); column_start = 3 * (row div 3)
                in block_cells row_start column_start) [0..<9]"

subsection \<open>compute_error\<close>

text \<open>
  The body of the double loop: \<open>val\<close> is looked up in the seen-set of its row and of
  its column, each hit adds one to \<open>nb_error\<close> (Python adds the two booleans), and
  \<open>val\<close> joins both sets. The value 0 gets no special treatment.
\<close>

definition compute_error_step ::
  "grid \<Rightarrow> nat \<Rightarrow> nat \<Rightarrow> int \<times> int set list \<times> int set list
     \<Rightarrow> int \<times> int set list \<times> int set list" where
  "compute_error_step matrix i j st =
     (case st of (nb_error, rows, cols) \<Rightarrow>
        let val = matrix ! i ! j
        in (nb_error + (of_bool (val \<in> rows ! i) + of_bool (val \<in> cols ! j)),
            rows[i := insert val (rows ! i)],
            cols[j := insert val (cols ! j)]))"

definition compute_error :: "grid \<Rightarrow> int" where
  "compute_error matrix =
     fst (fold (\<lambda>i. fold (\<lambda>j. compute_error_step matrix i j) [0..<9]) [0..<9]
            (0, replicate 9 {}, replicate 9 {}))"

text \<open>Rows, columns and blocks of a grid, and what it means to be a solution.\<close>

definition row_of :: "grid \<Rightarrow> nat \<Rightarrow> int list" where
  "row_of g i = g ! i"

definition col_of :: "grid \<Rightarrow> nat \<Rightarrow> int list" where
  "col_of g j = map (\<lambda>r. r ! j) g"

definition block_of :: "grid \<Rightarrow> cell list \<Rightarrow> int list" where
  "block_of g b = map (cell_get g) b"

definition no_zero :: "grid \<Rightarrow> bool" where
  "no_zero g = list_all (\<lambda>r. list_all (\<lambda>v. v \<noteq> 0) r) g"

definition rows_cols_distinct :: "grid \<Rightarrow> bool" where
  "rows_cols_distinct g =
     (list_all (\<lambda>i. distinct (row_of g i)) [0..<9] \<and> list_all (\<lambda>j. distinct (col_of g j)) [0..<9])"

definition blocks_perm :: "grid \<Rightarrow> bool" where
  "blocks_perm g = list_all (\<lambda>b. mset (block_of g b) = mset [1..9]) blocks_index"

definition valid_solution :: "grid \<Rightarrow> bool" where
  "valid_solution g =
     (is_grid g
      \<and> list_all (\<lambda>i. mset (row_of g i) = mset [1..9]) [0..<9]
      \<and> list_all (\<lambda>j. mset (col_of g j) = mset [1..9]) [0..<9]
      \<and> list_all (\<lambda>b. mset (block_of g b) = mset [1..9]) blocks_index)"

definition in_range :: "grid \<Rightarrow> bool" where
  "in_range g = list_all (\<lambda>r. list_all (\<lambda>v. 0 \<le> v \<and> v \<le> 9) r) g"

definition wf_puzzle :: "grid \<Rightarrow> bool" where
  "wf_puzzle g =
     (is_grid g \<and> in_range g
      \<and> list_all (\<lambda>b. distinct (filter (\<lambda>v. v \<noteq> 0) (block_of g b))) blocks_index)"

definition keeps_prefilled :: "grid \<Rightarrow> grid \<Rightarrow> bool" where
  "keeps_prefilled puzzle g =
     list_all (\<lambda>c. cell_get puzzle c \<noteq> 0 \<longrightarrow> cell_get g c = cell_get puzzle c) all_cells"

subsection \<open>random_matrix\<close>

text \<open>
  \<open>np.random.shuffle\<close> is the only random step: its outcome for each block is an
  argument, one shuffled list per block, and \<open>shuffles_ok\<close> says that each is an
  arrangement of 1..9. The first inner loop drops the block's fixed values from
  \<open>L\<close>, the second writes what is left into the empty cells.
\<close>

definition shuffles_ok :: "int list list \<Rightarrow> bool" where
  "shuffles_ok shufs = (length shufs = 9 \<and> list_all (\<lambda>L. mset L = mset [1..9]) shufs)"

fun remove_fixed :: "grid \<Rightarrow> cell list \<Rightarrow> int list \<Rightarrow> int list" where
  "remove_fixed sudoku [] L = L"
| "remove_fixed sudoku (block # blocks) L =
     remove_fixed sudoku blocks
       (if cell_get sudoku block \<noteq> 0 then filter (\<lambda>v. v \<noteq> cell_get sudoku block) L else L)"

fun fill_block :: "cell list \<Rightarrow> int list \<Rightarrow> grid \<Rightarrow> grid" where
  "fill_block [] L result = result"
| "fill_block (block # blocks) L result =
     (if length L \<noteq> 0 \<and> cell_get result block = 0
      then fill_block blocks (tl L) (cell_set result block (hd L))
      else fill_block blocks L result)"

fun random_matrix_loop :: "grid \<Rightarrow> cell list list \<Rightarrow> int list list \<Rightarrow> grid \<Rightarrow> grid" where
  "random_matrix_loop sudoku (blocks # rest) (L # shufs) result =
     random_matrix_loop sudoku rest shufs (fill_block blocks (remove_fixed sudoku blocks L) result)"
| "random_matrix_loop sudoku _ _ result = result"

definition random_matrix :: "cell list list \<Rightarrow> int list list \<Rightarrow> grid \<Rightarrow> grid" where
  "random_matrix idx shufs sudoku = random_matrix_loop sudoku idx shufs sudoku"

subsection \<open>The solver object and neighbor_sudoku\<close>

record solver =
  basic_grid :: grid
  index :: "cell list list"
  grid :: grid
  grid_score :: int
  pre_filled_indexes :: "cell list"
  temperature :: real
  limit :: nat
  cooling_rate :: real

text \<open>
  The random source is an argument. A move carries three arbitrary naturals: the first
  is reduced to the range of \<open>random.randint(0, 8)\<close>, the other two select what
  \<open>random.sample(cells_available, 2)\<close> returns, an element of the list and then an
  element of what remains. Every value of a move stands for one outcome of the two
  library calls, and every outcome is reached by some move
  (\<open>randint_range\<close>, \<open>sample2_reaches\<close>).
\<close>

type_synonym move = "nat \<times> nat \<times> nat"

definition randint :: "nat \<Rightarrow> nat \<Rightarrow> nat \<Rightarrow> nat" where
  "randint lo hi r = lo + r mod (hi - lo + 1)"

definition sample2 :: "'a list \<Rightarrow> nat \<Rightarrow> nat \<Rightarrow> 'a \<times> 'a" where
  "sample2 xs p q =
     (let i = p mod length xs; rest = take i xs @ drop (Suc i) xs
      in (xs ! i, rest ! (q mod length rest)))"

definition cells_available_of :: "solver \<Rightarrow> nat \<Rightarrow> cell list" where
  "cells_available_of s block = filter (\<lambda>b. b \<notin> set (pre_filled_indexes s)) (index s ! block)"

definition swap_cells :: "grid \<Rightarrow> cell \<Rightarrow> cell \<Rightarrow> grid" where
  "swap_cells result cell1 cell2 =
     cell_set (cell_set result cell1 (cell_get result cell2)) cell2 (cell_get result cell1)"

definition neighbor_sudoku :: "solver \<Rightarrow> move \<Rightarrow> grid" where
  "neighbor_sudoku s mv =
     (case mv of (b, p, q) \<Rightarrow>
        let result = grid s;
            block = randint 0 8 b;
            cells_available = cells_available_of s block
        in if length cells_available < 2 then result
           else case sample2 cells_available p q of
                  (cell1, cell2) \<Rightarrow> swap_cells result cell1 cell2)"

subsection \<open>init_temperature and the constructor\<close>

definition np_mean :: "int list \<Rightarrow> real" where
  "np_mean xs = real_of_int (sum_list xs) / real (length xs)"

definition np_std :: "int list \<Rightarrow> real" where
  "np_std xs = sqrt ((\<Sum>x\<leftarrow>xs. (real_of_int x - np_mean xs)\<^sup>2) / real (length xs))"

definition walk_step :: "solver \<times> int list \<Rightarrow> move \<Rightarrow> solver \<times> int list" where
  "walk_step st mv =
     (case st of (s, sudoku_list) \<Rightarrow>
        let neighbor = neighbor_sudoku s mv;
            neighbor_score = compute_error neighbor
        in (s\<lparr>grid := neighbor, grid_score := neighbor_score\<rparr>, sudoku_list @ [neighbor_score]))"

definition walk_loop :: "solver \<Rightarrow> (nat \<Rightarrow> move) \<Rightarrow> solver \<times> int list" where
  "walk_loop s moves = fold (\<lambda>k st. walk_step st (moves k)) [0..<10] (s, [])"

definition init_temperature :: "solver \<Rightarrow> (nat \<Rightarrow> move) \<Rightarrow> real \<times> solver" where
  "init_temperature s moves =
     (case walk_loop s moves of (s', sudoku_list) \<Rightarrow> (np_std sudoku_list, s'))"

definition argwhere_nonzero :: "grid \<Rightarrow> cell list" where
  "argwhere_nonzero g = [(i, j). i \<leftarrow> [0..<length g], j \<leftarrow> [0..<length (g ! i)], g ! i ! j \<noteq> 0]"

definition count_zero :: "grid \<Rightarrow> nat" where
  "count_zero g = length (filter (\<lambda>v. v = 0) (concat g))"

text \<open>
  \<open>Solver.__init__\<close>, in two parts: \<open>initial_state\<close> is the object when
  \<open>init_temperature\<close> is called, \<open>solver_init\<close> the finished object. The fields \<open>temperature\<close>, \<open>limit\<close> and \<open>cooling_rate\<close> do not
  exist yet while \<open>init_temperature\<close> runs and nothing reads them there; the record
  holds 0 in their place until the constructor assigns them.
\<close>

definition initial_state :: "grid \<Rightarrow> int list list \<Rightarrow> solver" where
  "initial_state puzzle shufs =
     (let idx = blocks_index;
          g = random_matrix idx shufs puzzle
      in \<lparr>basic_grid = puzzle, index = idx, grid = g, grid_score = compute_error g,
          pre_filled_indexes = argwhere_nonzero puzzle,
          temperature = 0, limit = 0, cooling_rate = 0\<rparr>)"

definition solver_init :: "grid \<Rightarrow> real \<Rightarrow> int list list \<Rightarrow> (nat \<Rightarrow> move) \<Rightarrow> solver" where
  "solver_init puzzle cooling shufs moves =
     (case init_temperature (initial_state puzzle shufs) moves of
        (t, s1) \<Rightarrow> s1\<lparr>temperature := t, limit := count_zero puzzle, cooling_rate := cooling\<rparr>)"

subsection \<open>solve\<close>

text \<open>
  Scores are Python integers and the temperature is a numpy double. Finite doubles are
  read as reals; the three special values are kept, because a temperature of 0 makes
  the quotient an infinity or a NaN (numpy warns and goes on) where HOL would say 0.
\<close>

datatype fval = Fin real | PInf | NInf | NaN

definition np_div :: "int \<Rightarrow> real \<Rightarrow> fval" where
  "np_div a t =
     (if t \<noteq> 0 then Fin (real_of_int a / t)
      else if 0 < a then PInf else if a < 0 then NInf else NaN)"

fun np_exp :: "fval \<Rightarrow> fval" where
  "np_exp (Fin x) = Fin (exp x)"
| "np_exp PInf = PInf"
| "np_exp NInf = Fin 0"
| "np_exp NaN = NaN"

fun fless :: "real \<Rightarrow> fval \<Rightarrow> bool" where
  "fless u (Fin x) = (u < x)"
| "fless u PInf = True"
| "fless u NInf = False"
| "fless u NaN = False"

text \<open>
  \<open>np.random.uniform(low, high)\<close> returns \<open>low + (high - low) * r\<close> for a sample
  \<open>r\<close> of [0, 1); the source calls it with \<open>low = 1\<close> and \<open>high = 0\<close>.
\<close>

definition np_uniform :: "real \<Rightarrow> real \<Rightarrow> real \<Rightarrow> real" where
  "np_uniform low high r = low + (high - low) * r"

definition acceptance :: "solver \<Rightarrow> int \<Rightarrow> fval" where
  "acceptance s neighbor_score = np_exp (np_div (grid_score s - neighbor_score) (temperature s))"

definition anneal_step :: "solver \<Rightarrow> move \<times> real \<Rightarrow> solver" where
  "anneal_step s rnd =
     (case rnd of (mv, r) \<Rightarrow>
        let neighbor = neighbor_sudoku s mv;
            neighbor_score = compute_error neighbor;
            p = acceptance s neighbor_score
        in if fless (np_uniform 1 0 r) p
           then s\<lparr>grid := neighbor, grid_score := grid_score s + (neighbor_score - grid_score s)\<rparr>
           else s)"

fun inner_loop :: "nat \<Rightarrow> (nat \<Rightarrow> move \<times> real) \<Rightarrow> nat \<Rightarrow> solver \<Rightarrow> grid + solver" where
  "inner_loop 0 tape k s = Inr s"
| "inner_loop (Suc n) tape k s =
     (let s' = anneal_step s (tape k)
      in if grid_score s' \<le> 0 then Inl (grid s') else inner_loop n tape (Suc k) s')"

text \<open>One pass of \<open>while True\<close>: \<open>Inl\<close> is a \<open>return\<close>, \<open>Inr\<close> the state of the next pass.\<close>

definition epoch :: "(nat \<Rightarrow> move \<times> real) \<Rightarrow> nat \<times> solver \<Rightarrow> grid + nat \<times> solver" where
  "epoch tape st =
     (case st of (reheats, s) \<Rightarrow>
        if compute_error (grid s) = 0 then Inl (grid s)
        else let previousScore = grid_score s
             in case inner_loop (limit s) tape 0 s of
                  Inl g \<Rightarrow> Inl g
                | Inr s' \<Rightarrow>
                    let reheats' = (if grid_score s' \<ge> previousScore then reheats + 1 else 0);
                        s'' = s'\<lparr>temperature := temperature s' * cooling_rate s'\<rparr>
                    in if reheats' > 80
                       then Inr (0, s''\<lparr>temperature := temperature s'' + 2\<rparr>)
                       else Inr (reheats', s''))"

text \<open>
  The loop has no bound in the source. \<open>fuel\<close> counts the passes allowed: \<open>None\<close>
  means that the loop is still running after that many.
\<close>

fun solve_loop :: "nat \<Rightarrow> (nat \<Rightarrow> nat \<Rightarrow> move \<times> real) \<Rightarrow> nat \<Rightarrow> nat \<times> solver \<Rightarrow> grid option" where
  "solve_loop 0 tape e st = None"
| "solve_loop (Suc fuel) tape e st =
     (case epoch (tape e) st of
        Inl g \<Rightarrow> Some g
      | Inr st' \<Rightarrow> solve_loop fuel tape (Suc e) st')"

definition solve :: "nat \<Rightarrow> (nat \<Rightarrow> nat \<Rightarrow> move \<times> real) \<Rightarrow> solver \<Rightarrow> grid option" where
  "solve fuel tape s = solve_loop fuel tape 0 (0, s)"


section \<open>Auxiliary notions for the proofs\<close>

text \<open>
  The cells \<open>S\<close> scanned so far hold no value twice in one row (one column); the
  seen-sets of \<open>compute_error\<close> hold exactly the values of the scanned cells.
\<close>

definition row_ok :: "grid \<Rightarrow> cell set \<Rightarrow> bool" where
  "row_ok m S = (\<forall>c \<in> S. \<forall>d \<in> S. c \<noteq> d \<and> fst c = fst d \<longrightarrow> cell_get m c \<noteq> cell_get m d)"

definition col_ok :: "grid \<Rightarrow> cell set \<Rightarrow> bool" where
  "col_ok m S = (\<forall>c \<in> S. \<forall>d \<in> S. c \<noteq> d \<and> snd c = snd d \<longrightarrow> cell_get m c \<noteq> cell_get m d)"

definition ce_inv :: "grid \<Rightarrow> cell set \<Rightarrow> int \<times> int set list \<times> int set list \<Rightarrow> bool" where
  "ce_inv m S st = (case st of (n, rows, cols) \<Rightarrow>
      length rows = 9 \<and> length cols = 9 \<and> 0 \<le> n
      \<and> (\<forall>i<9. rows ! i = cell_get m ` {d \<in> S. fst d = i})
      \<and> (\<forall>j<9. cols ! j = cell_get m ` {d \<in> S. snd d = j})
      \<and> (n = 0 \<longleftrightarrow> row_ok m S \<and> col_ok m S))"

text \<open>A completed grid and a puzzle, used to run the definitions on.\<close>

definition solved_grid :: grid where
  "solved_grid =
     [[5, 3, 4, 6, 7, 8, 9, 1, 2],
      [6, 7, 2, 1, 9, 5, 3, 4, 8],
      [1, 9, 8, 3, 4, 2, 5, 6, 7],
      [8, 5, 9, 7, 6, 1, 4, 2, 3],
      [4, 2, 6, 8, 5, 3, 7, 9, 1],
      [7, 1, 3, 9, 2, 4, 8, 5, 6],
      [9, 6, 1, 5, 3, 7, 2, 8, 4],
      [2, 8, 7, 4, 1, 9, 6, 3, 5],
      [3, 4, 5, 2, 8, 6, 1, 7, 9]]"

text \<open>
  The same grid with the cells (0, 0) and (1, 1) emptied, the grid that
  \<open>random_matrix\<close> makes of it when every shuffle puts 7 first, and the solver object
  on that grid before \<open>init_temperature\<close> runs.
\<close>

definition two_empty_puzzle :: grid where
  "two_empty_puzzle =
     [[0, 3, 4, 6, 7, 8, 9, 1, 2],
      [6, 0, 2, 1, 9, 5, 3, 4, 8],
      [1, 9, 8, 3, 4, 2, 5, 6, 7],
      [8, 5, 9, 7, 6, 1, 4, 2, 3],
      [4, 2, 6, 8, 5, 3, 7, 9, 1],
      [7, 1, 3, 9, 2, 4, 8, 5, 6],
      [9, 6, 1, 5, 3, 7, 2, 8, 4],
      [2, 8, 7, 4, 1, 9, 6, 3, 5],
      [3, 4, 5, 2, 8, 6, 1, 7, 9]]"

definition seven_first :: "int list list" where
  "seven_first = replicate 9 [7, 1, 2, 3, 4, 5, 6, 8, 9]"

definition crossed_grid :: grid where
  "crossed_grid =
     [[7, 3, 4, 6, 7, 8, 9, 1, 2],
      [6, 5, 2, 1, 9, 5, 3, 4, 8],
      [1, 9, 8, 3, 4, 2, 5, 6, 7],
      [8, 5, 9, 7, 6, 1, 4, 2, 3],
      [4, 2, 6, 8, 5, 3, 7, 9, 1],
      [7, 1, 3, 9, 2, 4, 8, 5, 6],
      [9, 6, 1, 5, 3, 7, 2, 8, 4],
      [2, 8, 7, 4, 1, 9, 6, 3, 5],
      [3, 4, 5, 2, 8, 6, 1, 7, 9]]"

definition crossed_solver :: solver where
  "crossed_solver =
     \<lparr>basic_grid = two_empty_puzzle, index = blocks_index, grid = crossed_grid, grid_score = 4,
      pre_filled_indexes = argwhere_nonzero two_empty_puzzle,
      temperature = 0, limit = 0, cooling_rate = 0\<rparr>"

text \<open>
  The grid with four cells of the first block emptied, shuffles that fill them in the
  order 3, 5, 7, 6, and the grid that results. Swapping its cells (0, 0) and (1, 1)
  leaves the error count at 4.
\<close>

definition four_empty_puzzle :: grid where
  "four_empty_puzzle =
     [[0, 0, 4, 6, 7, 8, 9, 1, 2],
      [0, 0, 2, 1, 9, 5, 3, 4, 8],
      [1, 9, 8, 3, 4, 2, 5, 6, 7],
      [8, 5, 9, 7, 6, 1, 4, 2, 3],
      [4, 2, 6, 8, 5, 3, 7, 9, 1],
      [7, 1, 3, 9, 2, 4, 8, 5, 6],
      [9, 6, 1, 5, 3, 7, 2, 8, 4],
      [2, 8, 7, 4, 1, 9, 6, 3, 5],
      [3, 4, 5, 2, 8, 6, 1, 7, 9]]"

definition three_first :: "int list list" where
  "three_first = replicate 9 [3, 5, 7, 6, 1, 2, 4, 8, 9]"

definition skewed_grid :: grid where
  "skewed_grid =
     [[3, 5, 4, 6, 7, 8, 9, 1, 2],
      [7, 6, 2, 1, 9, 5, 3, 4, 8],
      [1, 9, 8, 3, 4, 2, 5, 6, 7],
      [8, 5, 9, 7, 6, 1, 4, 2, 3],
      [4, 2, 6, 8, 5, 3, 7, 9, 1],
      [7, 1, 3, 9, 2, 4, 8, 5, 6],
      [9, 6, 1, 5, 3, 7, 2, 8, 4],
      [2, 8, 7, 4, 1, 9, 6, 3, 5],
      [3, 4, 5, 2, 8, 6, 1, 7, 9]]"

definition skewed_solver :: solver where
  "skewed_solver =
     \<lparr>basic_grid = four_empty_puzzle, index = blocks_index, grid = skewed_grid, grid_score = 4,
      pre_filled_indexes = argwhere_nonzero four_empty_puzzle,
      temperature = 0, limit = 0, cooling_rate = 0\<rparr>"

text \<open>Moves that all draw block 1, which has no empty cell in either puzzle.\<close>

definition still_moves :: "nat \<Rightarrow> move" where
  "still_moves k = (1, 0, 0)"

text \<open>What holds of the solver object throughout a run on \<open>puzzle\<close>.\<close>

definition score_synced :: "solver \<Rightarrow> bool" where
  "score_synced s = (grid_score s = compute_error (grid s))"

definition digits :: "grid \<Rightarrow> bool" where
  "digits g = list_all (\<lambda>r. list_all (\<lambda>v. 1 \<le> v \<and> v \<le> 9) r) g"

definition solver_inv :: "grid \<Rightarrow> solver \<Rightarrow> bool" where
  "solver_inv puzzle s =
     (index s = blocks_index \<and> pre_filled_indexes s = argwhere_nonzero puzzle
      \<and> is_grid (grid s) \<and> blocks_perm (grid s) \<and> keeps_prefilled puzzle (grid s)
      \<and> score_synced s)"

text \<open>
  The states between the operations of a run: the object as \<open>init_temperature\<close> finds
  it, after a step of the 10-step walk, after an iteration of the inner loop, and
  after an assignment to one of the three scalar fields.
\<close>

inductive run_state :: "grid \<Rightarrow> int list list \<Rightarrow> solver \<Rightarrow> bool"
  for puzzle :: grid and shufs :: "int list list" where
  constructed: "run_state puzzle shufs (initial_state puzzle shufs)"
| walked: "run_state puzzle shufs s \<Longrightarrow> run_state puzzle shufs (fst (walk_step (s, l) mv))"
| annealed: "run_state puzzle shufs s \<Longrightarrow> run_state puzzle shufs (anneal_step s rnd)"
| assigned: "run_state puzzle shufs s
     \<Longrightarrow> run_state puzzle shufs (s\<lparr>temperature := t, limit := n, cooling_rate := c\<rparr>)"

text \<open>
  The walk of \<open>init_temperature\<close> as the specification words it: grid 0 is the initial
  grid, and grid \<open>k + 1\<close> is a neighbor of grid \<open>k\<close>.
\<close>

fun walk_grids :: "solver \<Rightarrow> (nat \<Rightarrow> move) \<Rightarrow> nat \<Rightarrow> grid" where
  "walk_grids s moves 0 = grid s"
| "walk_grids s moves (Suc k) = neighbor_sudoku (s\<lparr>grid := walk_grids s moves k\<rparr>) (moves k)"

definition walk_scores :: "solver \<Rightarrow> (nat \<Rightarrow> move) \<Rightarrow> int list" where
  "walk_scores s moves = map (\<lambda>k. compute_error (walk_grids s moves (Suc k))) [0..<10]"

text \<open>The state after \<open>n\<close> passes of the loop of \<open>solve\<close>, if none of them returned.\<close>

fun after_epochs :: "nat \<Rightarrow> (nat \<Rightarrow> nat \<Rightarrow> move \<times> real) \<Rightarrow> nat \<times> solver \<Rightarrow> (nat \<times> solver) option" where
  "after_epochs 0 tape st = Some st"
| "after_epochs (Suc n) tape st =
     (case after_epochs n tape st of
        None \<Rightarrow> None
      | Some st' \<Rightarrow> (case epoch (tape n) st' of Inl g \<Rightarrow> None | Inr st'' \<Rightarrow> Some st''))"

text \<open>
  The accepted state of an inner-loop iteration, and the acceptance probability as the
  specification writes it.
\<close>

definition accept :: "solver \<Rightarrow> move \<Rightarrow> solver" where
  "accept s mv =
     s\<lparr>grid := neighbor_sudoku s mv, grid_score := compute_error (neighbor_sudoku s mv)\<rparr>"

definition metropolis_p :: "solver \<Rightarrow> move \<Rightarrow> real" where
  "metropolis_p s mv =
     exp (real_of_int (grid_score s - compute_error (neighbor_sudoku s mv)) / temperature s)"

section \<open>Properties\<close>

subsection \<open>The block table\<close>

lemma blocks_index_eval:
  "blocks_index =
    [[(0,0),(0,1),(0,2),(1,0),(1,1),(1,2),(2,0),(2,1),(2,2)],
     [(3,0),(3,1),(3,2),(4,0),(4,1),(4,2),(5,0),(5,1),(5,2)],
     [(6,0),(6,1),(6,2),(7,0),(7,1),(7,2),(8,0),(8,1),(8,2)],
     [(0,3),(0,4),(0,5),(1,3),(1,4),(1,5),(2,3),(2,4),(2,5)],
     [(3,3),(3,4),(3,5),(4,3),(4,4),(4,5),(5,3),(5,4),(5,5)],
     [(6,3),(6,4),(6,5),(7,3),(7,4),(7,5),(8,3),(8,4),(8,5)],
     [(0,6),(0,7),(0,8),(1,6),(1,7),(1,8),(2,6),(2,7),(2,8)],
     [(3,6),(3,7),(3,8),(4,6),(4,7),(4,8),(5,6),(5,7),(5,8)],
     [(6,6),(6,7),(6,8),(7,6),(7,7),(7,8),(8,6),(8,7),(8,8)]]"
  by code_simp

lemma list_all_upt9: "list_all P [0..<9] \<longleftrightarrow> (\<forall>i<9. P i)"
  by (auto simp: list_all_iff)

lemma all_cells_set: "set all_cells = {0..<9} \<times> {0..<9}"
  unfolding all_cells_def by auto

lemma all_cells_distinct: "distinct all_cells"
  unfolding all_cells_def by code_simp

lemma blocks_index_length: "length blocks_index = 9"
  by (simp add: blocks_index_def)

lemma blocks_index_distinct: "distinct (concat blocks_index)"
  unfolding blocks_index_eval by simp

lemma blocks_index_cover: "set (concat blocks_index) = set all_cells"
  unfolding blocks_index_eval all_cells_def by code_simp

lemma block_cells_set: "set (block_cells r c) = {r..<r + 3} \<times> {c..<c + 3}"
  unfolding block_cells_def by auto

lemma blocks_index_nth:
  "k < 9 \<Longrightarrow> blocks_index ! k = block_cells (3 * (k mod 3)) (3 * (k div 3))"
  by (simp add: blocks_index_def Let_def del: upt_Suc)

lemma blocks_index_disjoint:
  "list_all (\<lambda>i. list_all (\<lambda>j. i \<noteq> j \<longrightarrow> set (blocks_index ! i) \<inter> set (blocks_index ! j) = {}) [0..<9]) [0..<9]"
  by code_simp

text \<open>
  C8. \<open>blocks_index\<close> takes no argument and is a fixed table: 9 blocks of 9 coordinates
  each, pairwise disjoint, no coordinate twice, together exactly the 81 cells of the
  9x9 grid, and block \<open>k\<close> is the 3x3 square of rows \<open>3 * (k mod 3)\<close> to
  \<open>3 * (k mod 3) + 2\<close> and columns \<open>3 * (k div 3)\<close> to \<open>3 * (k div 3) + 2\<close>.
\<close>

theorem blocks_index_partition:
  "length blocks_index = 9
   \<and> (\<forall>k<9. length (blocks_index ! k) = 9)
   \<and> (\<forall>i<9. \<forall>j<9. i \<noteq> j \<longrightarrow> set (blocks_index ! i) \<inter> set (blocks_index ! j) = {})
   \<and> distinct (concat blocks_index)
   \<and> set (concat blocks_index) = {0..<9} \<times> {0..<9}
   \<and> (\<forall>k<9. set (blocks_index ! k)
          = {3 * (k mod 3)..<3 * (k mod 3) + 3} \<times> {3 * (k div 3)..<3 * (k div 3) + 3})"
proof (intro conjI)
  show "length blocks_index = 9" by (rule blocks_index_length)
  have "list_all (\<lambda>k. length (blocks_index ! k) = 9) [0..<9]" by code_simp
  then show "\<forall>k<9. length (blocks_index ! k) = 9" by (simp only: list_all_upt9)
  show "\<forall>i<9. \<forall>j<9. i \<noteq> j \<longrightarrow> set (blocks_index ! i) \<inter> set (blocks_index ! j) = {}"
    using blocks_index_disjoint by (simp only: list_all_upt9)
  show "distinct (concat blocks_index)" by (rule blocks_index_distinct)
  show "set (concat blocks_index) = {0..<9} \<times> {0..<9}"
    by (simp only: blocks_index_cover all_cells_set)
  show "\<forall>k<9. set (blocks_index ! k)
          = {3 * (k mod 3)..<3 * (k mod 3) + 3} \<times> {3 * (k div 3)..<3 * (k div 3) + 3}"
  proof (intro allI impI)
    fix k :: nat assume "k < 9"
    then show "set (blocks_index ! k)
          = {3 * (k mod 3)..<3 * (k mod 3) + 3} \<times> {3 * (k div 3)..<3 * (k div 3) + 3}"
      by (simp only: blocks_index_nth block_cells_set)
  qed
qed

theorem blocks_index_partition_witness:
  "length (blocks_index ! 4) = 9
   \<and> set (blocks_index ! 0) \<inter> set (blocks_index ! 4) = {}
   \<and> set (blocks_index ! 4) = {3..<6} \<times> {3..<6}"
proof -
  note p = blocks_index_partition
  have a: "\<forall>k<9. length (blocks_index ! k) = 9" using p by blast
  have b: "\<forall>i<9. \<forall>j<9. i \<noteq> j \<longrightarrow> set (blocks_index ! i) \<inter> set (blocks_index ! j) = {}"
    using p by blast
  have c: "\<forall>k<9. set (blocks_index ! k)
          = {3 * (k mod 3)..<3 * (k mod 3) + 3} \<times> {3 * (k div 3)..<3 * (k div 3) + 3}"
    using p by blast
  have "length (blocks_index ! 4) = 9" using a by simp
  moreover have "set (blocks_index ! 0) \<inter> set (blocks_index ! 4) = {}"
    using b[rule_format, of 0 4] by simp
  moreover have "set (blocks_index ! 4) = {3..<6} \<times> {3..<6}"
    using c[rule_format, of 4] by simp
  ultimately show ?thesis by blast
qed

subsection \<open>The error count\<close>

lemma pair_ok_insert:
  assumes "c \<notin> S"
  shows "(\<forall>x \<in> insert c S. \<forall>y \<in> insert c S. x \<noteq> y \<and> f x = f y \<longrightarrow> h x \<noteq> h y)
     \<longleftrightarrow> (\<forall>x \<in> S. \<forall>y \<in> S. x \<noteq> y \<and> f x = f y \<longrightarrow> h x \<noteq> h y) \<and> h c \<notin> h ` {d \<in> S. f d = f c}"
  (is "?L \<longleftrightarrow> ?R1 \<and> ?R2")
proof
  assume L: ?L
  have ?R1 using L by simp
  moreover have ?R2
  proof
    assume "h c \<in> h ` {d \<in> S. f d = f c}"
    then obtain d where d: "d \<in> S" "f d = f c" "h c = h d" by auto
    with assms have "c \<noteq> d" by auto
    moreover have "c \<in> insert c S" "d \<in> insert c S" using d by simp_all
    ultimately show False using L d(2,3) by metis
  qed
  ultimately show "?R1 \<and> ?R2" ..
next
  assume R: "?R1 \<and> ?R2"
  show ?L
  proof (intro ballI impI)
    fix x y assume x: "x \<in> insert c S" and y: "y \<in> insert c S" and xy: "x \<noteq> y \<and> f x = f y"
    show "h x \<noteq> h y"
    proof (cases "x = c")
      case True
      with xy y have "y \<in> S" "f y = f c" by auto
      then have "h y \<in> h ` {d \<in> S. f d = f c}" by simp
      with R True show ?thesis by metis
    next
      case False
      with x have xs: "x \<in> S" by simp
      show ?thesis
      proof (cases "y = c")
        case True
        with xs xy have "h x \<in> h ` {d \<in> S. f d = f c}" by simp
        with R True show ?thesis by metis
      next
        case False
        with y have "y \<in> S" by simp
        with R xs xy show ?thesis by simp
      qed
    qed
  qed
qed

lemma filter_insert_img:
  "h ` {d \<in> insert c S. f d = i} = (if f c = i then insert (h c) (h ` {d \<in> S. f d = i}) else h ` {d \<in> S. f d = i})"
  by auto

lemma upd_rows:
  fixes rows :: "int set list"
  assumes "length rows = 9" "k < 9" "\<And>i. i < 9 \<Longrightarrow> rows ! i = h ` {d \<in> S. f d = i}" "f c = k"
  shows "\<forall>i<9. (rows[k := insert (h c) (rows ! k)]) ! i = h ` {d \<in> insert c S. f d = i}"
proof (intro allI impI)
  fix i :: nat assume i: "i < 9"
  show "(rows[k := insert (h c) (rows ! k)]) ! i = h ` {d \<in> insert c S. f d = i}"
    unfolding filter_insert_img using assms i by (cases "i = k") simp_all
qed

lemma fold_nested:
  "fold (\<lambda>i. fold (\<lambda>j. f i j) ys) xs = fold (\<lambda>c. f (fst c) (snd c)) (concat (map (\<lambda>i. map (\<lambda>j. (i, j)) ys) xs))"
  by (induction xs) (simp_all add: fold_map comp_def)

lemma compute_error_flat:
  "compute_error m = fst (fold (\<lambda>c. compute_error_step m (fst c) (snd c)) all_cells (0, replicate 9 {}, replicate 9 {}))"
  unfolding compute_error_def all_cells_def fold_nested ..

lemma ce_inv_init: "ce_inv m {} (0, replicate 9 {}, replicate 9 {})"
  by (simp add: ce_inv_def row_ok_def col_ok_def)

lemma ce_inv_step:
  assumes "ce_inv m S st" "c \<notin> S" "fst c < 9" "snd c < 9"
  shows "ce_inv m (insert c S) (compute_error_step m (fst c) (snd c) st)"
proof -
  obtain n rows cols where st: "st = (n, rows, cols)" by (cases st)
  from assms(1) have len: "length rows = 9" "length cols = 9" and n0: "0 \<le> n"
    and rows: "\<And>i. i < 9 \<Longrightarrow> rows ! i = cell_get m ` {d \<in> S. fst d = i}"
    and cols: "\<And>j. j < 9 \<Longrightarrow> cols ! j = cell_get m ` {d \<in> S. snd d = j}"
    and ok: "n = 0 \<longleftrightarrow> row_ok m S \<and> col_ok m S"
    by (simp_all add: ce_inv_def st)
  let ?v = "m ! fst c ! snd c"
  have v: "?v = cell_get m c" by (simp add: cell_get_def)
  let ?n = "n + (of_bool (?v \<in> rows ! fst c) + of_bool (?v \<in> cols ! snd c))"
  have r': "\<forall>i<9. (rows[fst c := insert ?v (rows ! fst c)]) ! i = cell_get m ` {d \<in> insert c S. fst d = i}"
    unfolding v using len(1) assms(3) rows by (rule upd_rows) simp_all
  have c': "\<forall>j<9. (cols[snd c := insert ?v (cols ! snd c)]) ! j = cell_get m ` {d \<in> insert c S. snd d = j}"
    unfolding v using len(2) assms(4) cols by (rule upd_rows) simp_all
  have "?n = 0 \<longleftrightarrow> n = 0 \<and> ?v \<notin> rows ! fst c \<and> ?v \<notin> cols ! snd c"
    using n0 by (simp add: of_bool_def)
  also have "\<dots> \<longleftrightarrow> row_ok m (insert c S) \<and> col_ok m (insert c S)"
    unfolding row_ok_def col_ok_def pair_ok_insert[OF assms(2)] ok rows[OF assms(3)] cols[OF assms(4)] v
    by blast
  finally have z: "?n = 0 \<longleftrightarrow> row_ok m (insert c S) \<and> col_ok m (insert c S)" .
  have "0 \<le> ?n" using n0 by simp
  then show ?thesis
    unfolding st compute_error_step_def using len r' c' z by (simp add: ce_inv_def Let_def)
qed

lemma ce_inv_fold:
  assumes "distinct cs" "\<forall>c \<in> set cs. fst c < 9 \<and> snd c < 9"
  shows "ce_inv m (set cs) (fold (\<lambda>c. compute_error_step m (fst c) (snd c)) cs (0, replicate 9 {}, replicate 9 {}))"
  using assms
proof (induction cs rule: rev_induct)
  case Nil
  show ?case by (simp add: ce_inv_init)
next
  case (snoc c cs)
  then show ?case using ce_inv_step[of m "set cs" _ c] by simp
qed

lemma ce_inv_all:
  "ce_inv m (set all_cells) (fold (\<lambda>c. compute_error_step m (fst c) (snd c)) all_cells (0, replicate 9 {}, replicate 9 {}))"
  by (rule ce_inv_fold) (auto simp: all_cells_distinct all_cells_set)

lemma compute_error_zero_iff: "compute_error m = 0 \<longleftrightarrow> row_ok m (set all_cells) \<and> col_ok m (set all_cells)"
  using ce_inv_all[of m] unfolding compute_error_flat by (simp add: ce_inv_def split: prod.splits)

lemma compute_error_nonneg: "0 \<le> compute_error m"
  using ce_inv_all[of m] unfolding compute_error_flat by (simp add: ce_inv_def split: prod.splits)

lemma is_grid_row: "is_grid g \<Longrightarrow> i < 9 \<Longrightarrow> length (g ! i) = 9"
  by (simp add: is_grid_def list_all_length)

lemma row_ok_distinct:
  assumes "is_grid g"
  shows "row_ok g (set all_cells) \<longleftrightarrow> (\<forall>i<9. distinct (row_of g i))"
proof
  assume r: "row_ok g (set all_cells)"
  show "\<forall>i<9. distinct (row_of g i)"
  proof (intro allI impI)
    fix i :: nat assume i: "i < 9"
    have "\<And>a b. a < 9 \<Longrightarrow> b < 9 \<Longrightarrow> a \<noteq> b \<Longrightarrow> g ! i ! a \<noteq> g ! i ! b"
    proof -
      fix a b :: nat assume ab: "a < 9" "b < 9" "a \<noteq> b"
      have "(i, a) \<in> set all_cells" "(i, b) \<in> set all_cells" "(i, a) \<noteq> (i, b)"
        using i ab by (simp_all add: all_cells_set)
      with r have "cell_get g (i, a) \<noteq> cell_get g (i, b)"
        unfolding row_ok_def by (metis fst_conv)
      then show "g ! i ! a \<noteq> g ! i ! b" by (simp add: cell_get_def)
    qed
    then show "distinct (row_of g i)"
      using is_grid_row[OF assms i] by (simp add: row_of_def distinct_conv_nth)
  qed
next
  assume d: "\<forall>i<9. distinct (row_of g i)"
  show "row_ok g (set all_cells)"
    unfolding row_ok_def
  proof (intro ballI impI)
    fix c d' :: cell
    assume c: "c \<in> set all_cells" and d': "d' \<in> set all_cells" and ne: "c \<noteq> d' \<and> fst c = fst d'"
    have b: "fst c < 9" "snd c < 9" "snd d' < 9" using c d' by (auto simp: all_cells_set)
    have "snd c \<noteq> snd d'" using ne by (auto simp: prod_eq_iff)
    moreover have "distinct (g ! fst c)" using d b(1) by (simp add: row_of_def)
    ultimately have "g ! fst c ! snd c \<noteq> g ! fst c ! snd d'"
      using is_grid_row[OF assms b(1)] b by (simp add: nth_eq_iff_index_eq)
    then show "cell_get g c \<noteq> cell_get g d'" using ne by (simp add: cell_get_def)
  qed
qed

lemma col_of_nth: "is_grid g \<Longrightarrow> i < 9 \<Longrightarrow> col_of g j ! i = g ! i ! j"
  by (simp add: col_of_def is_grid_def)

lemma col_of_length: "is_grid g \<Longrightarrow> length (col_of g j) = 9"
  by (simp add: col_of_def is_grid_def)

lemma col_ok_distinct:
  assumes "is_grid g"
  shows "col_ok g (set all_cells) \<longleftrightarrow> (\<forall>j<9. distinct (col_of g j))"
proof
  assume r: "col_ok g (set all_cells)"
  show "\<forall>j<9. distinct (col_of g j)"
  proof (intro allI impI)
    fix j :: nat assume j: "j < 9"
    have "\<And>a b. a < 9 \<Longrightarrow> b < 9 \<Longrightarrow> a \<noteq> b \<Longrightarrow> g ! a ! j \<noteq> g ! b ! j"
    proof -
      fix a b :: nat assume ab: "a < 9" "b < 9" "a \<noteq> b"
      have "(a, j) \<in> set all_cells" "(b, j) \<in> set all_cells" "(a, j) \<noteq> (b, j)"
        using j ab by (simp_all add: all_cells_set)
      with r have "cell_get g (a, j) \<noteq> cell_get g (b, j)"
        unfolding col_ok_def by (metis snd_conv)
      then show "g ! a ! j \<noteq> g ! b ! j" by (simp add: cell_get_def)
    qed
    then show "distinct (col_of g j)"
      using col_of_length[OF assms] col_of_nth[OF assms] by (simp add: distinct_conv_nth)
  qed
next
  assume d: "\<forall>j<9. distinct (col_of g j)"
  show "col_ok g (set all_cells)"
    unfolding col_ok_def
  proof (intro ballI impI)
    fix c d' :: cell
    assume c: "c \<in> set all_cells" and d': "d' \<in> set all_cells" and ne: "c \<noteq> d' \<and> snd c = snd d'"
    have b: "fst c < 9" "snd c < 9" "fst d' < 9" using c d' by (auto simp: all_cells_set)
    have "fst c \<noteq> fst d'" using ne by (auto simp: prod_eq_iff)
    moreover have "distinct (col_of g (snd c))" using d b(2) by simp
    ultimately have "col_of g (snd c) ! fst c \<noteq> col_of g (snd c) ! fst d'"
      using col_of_length[OF assms] b by (simp add: nth_eq_iff_index_eq)
    then show "cell_get g c \<noteq> cell_get g d'"
      using ne b by (simp add: cell_get_def col_of_nth[OF assms])
  qed
qed

lemma compute_error_zero_distinct:
  "is_grid g \<Longrightarrow> compute_error g = 0 \<longleftrightarrow> rows_cols_distinct g"
  by (simp add: compute_error_zero_iff row_ok_distinct col_ok_distinct rows_cols_distinct_def list_all_upt9)

text \<open>Every cell lies in a block, so a grid whose blocks are arrangements of 1..9 holds only 1..9.\<close>

lemma blocks_perm_block:
  "blocks_perm g \<Longrightarrow> b \<in> set blocks_index \<Longrightarrow> mset (block_of g b) = mset [1..9]"
  by (simp add: blocks_perm_def list_all_iff)

lemma blocks_perm_value:
  assumes "blocks_perm g" "i < 9" "j < 9"
  shows "g ! i ! j \<in> {1..9}"
proof -
  have "(i, j) \<in> set (concat blocks_index)"
    using assms(2,3) by (simp only: blocks_index_cover all_cells_set) simp
  then obtain b where b: "b \<in> set blocks_index" "(i, j) \<in> set b" by auto
  have "cell_get g (i, j) \<in> set (block_of g b)" using b(2) by (simp add: block_of_def)
  also have "set (block_of g b) = set_mset (mset (block_of g b))" by simp
  also have "\<dots> = set [1..9]" unfolding blocks_perm_block[OF assms(1) b(1)] by simp
  finally show ?thesis by (simp add: cell_get_def)
qed

lemma perm_of_distinct:
  fixes xs :: "int list"
  assumes "distinct xs" "length xs = 9" "set xs \<subseteq> {1..9}"
  shows "mset xs = mset [1..9]"
proof -
  have "card (set xs) = 9" using assms(1,2) by (simp add: distinct_card)
  then have "set xs = {1..9}" using assms(3) by (intro card_subset_eq) simp_all
  then have "set xs = set [1..9]" by simp
  moreover have "distinct [1..(9::int)]" by simp
  ultimately show ?thesis using assms(1) by (simp only: set_eq_iff_mset_eq_distinct)
qed

lemma distinct_of_perm:
  fixes xs :: "int list"
  shows "mset xs = mset [1..9] \<Longrightarrow> distinct xs"
  by (metis distinct_upto mset_eq_imp_distinct_iff)

lemma rows_cols_distinct_valid:
  assumes "is_grid g" "blocks_perm g"
  shows "rows_cols_distinct g \<longleftrightarrow> valid_solution g"
proof
  assume d: "rows_cols_distinct g"
  have rows: "\<forall>i<9. mset (row_of g i) = mset [1..9]"
  proof (intro allI impI)
    fix i :: nat assume i: "i < 9"
    have "set (g ! i) \<subseteq> {1..9}"
      using blocks_perm_value[OF assms(2) i] is_grid_row[OF assms(1) i]
      by (auto simp: in_set_conv_nth)
    moreover have "distinct (g ! i)" using d i by (simp add: rows_cols_distinct_def list_all_upt9 row_of_def)
    ultimately show "mset (row_of g i) = mset [1..9]"
      unfolding row_of_def using is_grid_row[OF assms(1) i] by (intro perm_of_distinct)
  qed
  have cols: "\<forall>j<9. mset (col_of g j) = mset [1..9]"
  proof (intro allI impI)
    fix j :: nat assume j: "j < 9"
    have "set (col_of g j) \<subseteq> {1..9}"
      using blocks_perm_value[OF assms(2) _ j] col_of_nth[OF assms(1)] col_of_length[OF assms(1)]
      by (auto simp: in_set_conv_nth)
    moreover have "distinct (col_of g j)" using d j by (simp add: rows_cols_distinct_def list_all_upt9)
    ultimately show "mset (col_of g j) = mset [1..9]"
      using col_of_length[OF assms(1)] by (intro perm_of_distinct)
  qed
  show "valid_solution g"
    using assms rows cols by (simp add: valid_solution_def list_all_upt9 blocks_perm_def)
next
  assume v: "valid_solution g"
  then show "rows_cols_distinct g"
    by (simp add: valid_solution_def rows_cols_distinct_def list_all_upt9 distinct_of_perm)
qed

text \<open>
  C2. On a 9x9 grid with no zero entry, \<open>compute_error\<close> returns 0 exactly when no row
  and no column holds a value twice; and on a grid whose blocks are arrangements of
  1..9, as the solver's working grids are, it returns 0 exactly when the grid is a
  valid Sudoku solution.
\<close>

theorem compute_error_zero_characterization:
  assumes "is_grid g"
  shows "(no_zero g \<longrightarrow> (compute_error g = 0 \<longleftrightarrow> rows_cols_distinct g))
       \<and> (blocks_perm g \<longrightarrow> (compute_error g = 0 \<longleftrightarrow> valid_solution g))"
  using assms by (simp add: compute_error_zero_distinct rows_cols_distinct_valid)

lemma solved_grid_facts:
  "is_grid solved_grid" "no_zero solved_grid" "blocks_perm solved_grid" "valid_solution solved_grid"
  by code_simp+

theorem compute_error_zero_characterization_witness:
  "is_grid solved_grid \<and> no_zero solved_grid \<and> blocks_perm solved_grid
   \<and> compute_error solved_grid = 0 \<and> rows_cols_distinct solved_grid \<and> valid_solution solved_grid"
  using compute_error_zero_characterization[of solved_grid] solved_grid_facts by blast

subsection \<open>Reading and writing cells\<close>

lemma cell_get_set_other: "d \<noteq> c \<Longrightarrow> cell_get (cell_set g c v) d = cell_get g d"
proof (cases "fst d = fst c")
  case False
  then show ?thesis by (simp add: cell_get_def cell_set_def)
next
  case True
  assume "d \<noteq> c"
  with True have ne: "snd d \<noteq> snd c" by (auto simp: prod_eq_iff)
  show ?thesis
  proof (cases "fst c < length g")
    case True
    with \<open>fst d = fst c\<close> ne show ?thesis by (simp add: cell_get_def cell_set_def)
  next
    case False
    then show ?thesis by (simp add: cell_get_def cell_set_def list_update_beyond)
  qed
qed

lemma cell_get_set_same:
  "is_grid g \<Longrightarrow> fst c < 9 \<Longrightarrow> snd c < 9 \<Longrightarrow> cell_get (cell_set g c v) c = v"
  by (simp add: cell_get_def cell_set_def is_grid_def list_all_length)

lemma is_grid_cell_set: "is_grid g \<Longrightarrow> is_grid (cell_set g c v)"
  by (cases "fst c < 9") (auto simp: is_grid_def cell_set_def list_all_length nth_list_update list_update_beyond)

lemma in_block_range:
  assumes "b \<in> set blocks_index" "c \<in> set b"
  shows "fst c < 9 \<and> snd c < 9"
proof -
  have "c \<in> set (concat blocks_index)" using assms by auto
  then show ?thesis by (simp only: blocks_index_cover all_cells_set) auto
qed

lemma blocks_index_nth_mem: "k < 9 \<Longrightarrow> blocks_index ! k \<in> set blocks_index"
  by (simp add: blocks_index_length)

lemma block_distinct: "b \<in> set blocks_index \<Longrightarrow> distinct b"
  using blocks_index_distinct by (simp add: distinct_concat_iff)

lemma blocks_disjoint_nth:
  "i < 9 \<Longrightarrow> j < 9 \<Longrightarrow> i \<noteq> j \<Longrightarrow> c \<in> set (blocks_index ! i) \<Longrightarrow> c \<notin> set (blocks_index ! j)"
  using blocks_index_disjoint by (auto simp: list_all_upt9)

subsection \<open>Swapping two cells\<close>

lemma swap_cells_props:
  assumes "is_grid g" "fst c1 < 9" "snd c1 < 9" "fst c2 < 9" "snd c2 < 9"
  shows "is_grid (swap_cells g c1 c2)"
    and "cell_get (swap_cells g c1 c2) c1 = cell_get g c2"
    and "cell_get (swap_cells g c1 c2) c2 = cell_get g c1"
    and "d \<noteq> c1 \<Longrightarrow> d \<noteq> c2 \<Longrightarrow> cell_get (swap_cells g c1 c2) d = cell_get g d"
proof -
  show "is_grid (swap_cells g c1 c2)"
    using assms(1) by (simp add: swap_cells_def is_grid_cell_set)
  show "cell_get (swap_cells g c1 c2) c2 = cell_get g c1"
    using assms by (simp add: swap_cells_def is_grid_cell_set cell_get_set_same)
  show "cell_get (swap_cells g c1 c2) c1 = cell_get g c2"
  proof (cases "c1 = c2")
    case True
    then show ?thesis using assms by (simp add: swap_cells_def is_grid_cell_set cell_get_set_same)
  next
    case False
    then show ?thesis using assms by (simp add: swap_cells_def cell_get_set_other cell_get_set_same)
  qed
  show "d \<noteq> c1 \<Longrightarrow> d \<noteq> c2 \<Longrightarrow> cell_get (swap_cells g c1 c2) d = cell_get g d"
    by (simp add: swap_cells_def cell_get_set_other)
qed

lemma swap_mset:
  assumes "distinct bs" "c1 \<in> set bs" "c2 \<in> set bs"
    and "f' c1 = f c2" "f' c2 = f c1" "\<And>d. d \<noteq> c1 \<Longrightarrow> d \<noteq> c2 \<Longrightarrow> f' d = f d"
  shows "mset (map f' bs) = mset (map f bs)"
proof -
  obtain i j where i: "i < length bs" "bs ! i = c1" and j: "j < length bs" "bs ! j = c2"
    using assms(2,3) by (auto simp: in_set_conv_nth)
  let ?xs = "map f bs"
  have "map f' bs = ?xs[j := ?xs ! i, i := ?xs ! j]"
  proof (rule nth_equalityI)
    show "length (map f' bs) = length (?xs[j := ?xs ! i, i := ?xs ! j])" by simp
    fix k assume "k < length (map f' bs)"
    then have k: "k < length bs" by simp
    show "map f' bs ! k = ?xs[j := ?xs ! i, i := ?xs ! j] ! k"
    proof (cases "k = i")
      case True
      then show ?thesis using i j assms(4) by simp
    next
      case ki: False
      show ?thesis
      proof (cases "k = j")
        case True
        then show ?thesis using ki i j assms(5) by simp
      next
        case False
        have "bs ! k \<noteq> c1" "bs ! k \<noteq> c2"
          using ki False i j k assms(1) by (auto simp: nth_eq_iff_index_eq)
        then show ?thesis using ki False k assms(6) by simp
      qed
    qed
  qed
  moreover have "mset (?xs[j := ?xs ! i, i := ?xs ! j]) = mset ?xs"
    by (rule mset_swap) (simp_all add: i(1) j(1))
  ultimately show ?thesis by (simp only:)
qed

subsection \<open>The two library draws\<close>

lemma randint_range: "randint 0 8 r < 9"
  by (simp add: randint_def)

lemma randint_reaches: "k < 9 \<Longrightarrow> randint 0 8 k = k"
  by (simp add: randint_def)

lemma sample2_props:
  assumes "2 \<le> length xs" "sample2 xs p q = (a, b)"
  shows "a \<in> set xs" and "b \<in> set xs" and "distinct xs \<Longrightarrow> a \<noteq> b"
proof -
  let ?i = "p mod length xs"
  let ?rest = "take ?i xs @ drop (Suc ?i) xs"
  have "0 < length xs" using assms(1) by linarith
  then have i: "?i < length xs" by (rule mod_less_divisor)
  have len: "length ?rest = length xs - 1" using i by simp
  then have q: "q mod length ?rest < length ?rest" using assms(1) by simp
  have a: "a = xs ! ?i" and b: "b = ?rest ! (q mod length ?rest)"
    using assms(2) by (simp_all add: sample2_def Let_def)
  show "a \<in> set xs" using a i by simp
  have brest: "b \<in> set ?rest" unfolding b using q by (rule nth_mem)
  then show "b \<in> set xs" by (auto dest: in_set_takeD in_set_dropD)
  assume d: "distinct xs"
  have "xs = take ?i xs @ xs ! ?i # drop (Suc ?i) xs" using i by (rule id_take_nth_drop)
  with d have "distinct (take ?i xs @ xs ! ?i # drop (Suc ?i) xs)" by simp
  then have "xs ! ?i \<notin> set ?rest" by auto
  with brest a show "a \<noteq> b" by auto
qed

lemma sample2_reaches:
  assumes "i < length xs" "j < length xs" "i \<noteq> j"
  shows "sample2 xs i (if j < i then j else j - 1) = (xs ! i, xs ! j)"
proof -
  let ?rest = "take i xs @ drop (Suc i) xs"
  let ?q = "if j < i then j else j - 1"
  have len: "length ?rest = length xs - 1" using assms(1) by simp
  have q: "?q < length ?rest" using assms by (auto simp: len)
  have "?rest ! ?q = xs ! j"
  proof (cases "j < i")
    case True
    then show ?thesis using assms by (simp add: nth_append)
  next
    case False
    with assms have ij: "i < j" by simp
    have "length (take i xs) = i" using assms(1) by simp
    moreover have "\<not> j - 1 < i" using ij by simp
    ultimately have "?rest ! (j - 1) = drop (Suc i) xs ! (j - 1 - i)"
      by (simp only: nth_append if_False)
    also have "\<dots> = xs ! j" using ij assms by simp
    finally show ?thesis using False by simp
  qed
  then show ?thesis using assms(1) q by (simp add: sample2_def Let_def)
qed


subsection \<open>neighbor_sudoku\<close>

lemma cells_available_props:
  assumes "index s = blocks_index" "k < 9"
  shows "distinct (cells_available_of s k)"
    and "set (cells_available_of s k) \<subseteq> set (blocks_index ! k)"
    and "c \<in> set (cells_available_of s k) \<Longrightarrow> c \<notin> set (pre_filled_indexes s)"
  using assms block_distinct[OF blocks_index_nth_mem[OF assms(2)]]
  by (auto simp: cells_available_of_def)

lemma neighbor_sudoku_noop:
  "length (cells_available_of s (randint 0 8 b)) < 2 \<Longrightarrow> neighbor_sudoku s (b, p, q) = grid s"
  by (simp add: neighbor_sudoku_def Let_def)

lemma neighbor_sudoku_swap:
  assumes "index s = blocks_index" "2 \<le> length (cells_available_of s (randint 0 8 b))"
  obtains c1 c2 where "neighbor_sudoku s (b, p, q) = swap_cells (grid s) c1 c2"
    and "c1 \<in> set (cells_available_of s (randint 0 8 b))"
    and "c2 \<in> set (cells_available_of s (randint 0 8 b))"
    and "c1 \<noteq> c2"
proof -
  let ?av = "cells_available_of s (randint 0 8 b)"
  obtain c1 c2 where sm: "sample2 ?av p q = (c1, c2)" by (cases "sample2 ?av p q")
  have d: "distinct ?av" using assms(1) randint_range by (rule cells_available_props(1))
  have "neighbor_sudoku s (b, p, q) = swap_cells (grid s) c1 c2"
    using assms(2) sm by (simp add: neighbor_sudoku_def Let_def)
  moreover note sample2_props(1,2)[OF assms(2) sm] sample2_props(3)[OF assms(2) sm d]
  ultimately show ?thesis using that by blast
qed

lemma cells_available_length:
  assumes "index s = blocks_index" "k < 9"
  shows "length (cells_available_of s k)
       = card {c \<in> set (blocks_index ! k). c \<notin> set (pre_filled_indexes s)}"
proof -
  have "length (cells_available_of s k) = card (set (cells_available_of s k))"
    using cells_available_props(1)[OF assms] by (simp only: distinct_card)
  also have "set (cells_available_of s k)
      = {c \<in> set (blocks_index ! k). c \<notin> set (pre_filled_indexes s)}"
    unfolding cells_available_of_def assms(1) by (simp only: set_filter)
  finally show ?thesis .
qed

text \<open>
  C9. The mutable cells of the drawn block are the cells of that block of the table
  that are not in the pre-filled list. When there are fewer than 2 of them,
  \<open>neighbor_sudoku\<close> returns the working grid itself, as an ordinary result: the
  function has no error result at all. When there are 2 or more, the result is the
  working grid with the values of two different cells of that block swapped, neither of
  them pre-filled, and every other cell as before.
\<close>

theorem neighbor_sudoku_noop_or_swap:
  assumes "is_grid (grid s)" "index s = blocks_index"
  shows "(card {c \<in> set (blocks_index ! randint 0 8 b). c \<notin> set (pre_filled_indexes s)} < 2
            \<longrightarrow> neighbor_sudoku s (b, p, q) = grid s)
       \<and> (2 \<le> card {c \<in> set (blocks_index ! randint 0 8 b). c \<notin> set (pre_filled_indexes s)}
            \<longrightarrow> (\<exists>c1 c2. c1 \<noteq> c2
                  \<and> c1 \<in> set (blocks_index ! randint 0 8 b)
                  \<and> c2 \<in> set (blocks_index ! randint 0 8 b)
                  \<and> c1 \<notin> set (pre_filled_indexes s) \<and> c2 \<notin> set (pre_filled_indexes s)
                  \<and> is_grid (neighbor_sudoku s (b, p, q))
                  \<and> cell_get (neighbor_sudoku s (b, p, q)) c1 = cell_get (grid s) c2
                  \<and> cell_get (neighbor_sudoku s (b, p, q)) c2 = cell_get (grid s) c1
                  \<and> (\<forall>d. d \<noteq> c1 \<and> d \<noteq> c2
                        \<longrightarrow> cell_get (neighbor_sudoku s (b, p, q)) d = cell_get (grid s) d)))"
proof (intro conjI impI)
  let ?k = "randint 0 8 b"
  have k: "?k < 9" by (rule randint_range)
  note len = cells_available_length[OF assms(2) k]
  {
    assume "card {c \<in> set (blocks_index ! ?k). c \<notin> set (pre_filled_indexes s)} < 2"
    then have "length (cells_available_of s ?k) < 2" by (simp only: len)
    then show "neighbor_sudoku s (b, p, q) = grid s" by (rule neighbor_sudoku_noop)
  }
  {
    assume "2 \<le> card {c \<in> set (blocks_index ! ?k). c \<notin> set (pre_filled_indexes s)}"
    then have two: "2 \<le> length (cells_available_of s ?k)" by (simp only: len)
    obtain c1 c2 where n: "neighbor_sudoku s (b, p, q) = swap_cells (grid s) c1 c2"
      and c1: "c1 \<in> set (cells_available_of s ?k)"
      and c2: "c2 \<in> set (cells_available_of s ?k)"
      and ne: "c1 \<noteq> c2"
      using neighbor_sudoku_swap[OF assms(2) two] by blast
    have in1: "c1 \<in> set (blocks_index ! ?k)" and in2: "c2 \<in> set (blocks_index ! ?k)"
      using cells_available_props(2)[OF assms(2) k] c1 c2 by auto
    have r1: "fst c1 < 9 \<and> snd c1 < 9" and r2: "fst c2 < 9 \<and> snd c2 < 9"
      using in_block_range[OF blocks_index_nth_mem[OF k]] in1 in2 by blast+
    have f1: "c1 \<notin> set (pre_filled_indexes s)" and f2: "c2 \<notin> set (pre_filled_indexes s)"
      using cells_available_props(3)[OF assms(2) k] c1 c2 by blast+
    note sw = swap_cells_props[OF assms(1), of c1 c2]
    have "is_grid (neighbor_sudoku s (b, p, q))"
      and "cell_get (neighbor_sudoku s (b, p, q)) c1 = cell_get (grid s) c2"
      and "cell_get (neighbor_sudoku s (b, p, q)) c2 = cell_get (grid s) c1"
      and "\<forall>d. d \<noteq> c1 \<and> d \<noteq> c2 \<longrightarrow> cell_get (neighbor_sudoku s (b, p, q)) d = cell_get (grid s) d"
      unfolding n using sw r1 r2 by simp_all
    with ne in1 in2 f1 f2
    show "\<exists>c1 c2. c1 \<noteq> c2
            \<and> c1 \<in> set (blocks_index ! ?k) \<and> c2 \<in> set (blocks_index ! ?k)
            \<and> c1 \<notin> set (pre_filled_indexes s) \<and> c2 \<notin> set (pre_filled_indexes s)
            \<and> is_grid (neighbor_sudoku s (b, p, q))
            \<and> cell_get (neighbor_sudoku s (b, p, q)) c1 = cell_get (grid s) c2
            \<and> cell_get (neighbor_sudoku s (b, p, q)) c2 = cell_get (grid s) c1
            \<and> (\<forall>d. d \<noteq> c1 \<and> d \<noteq> c2
                  \<longrightarrow> cell_get (neighbor_sudoku s (b, p, q)) d = cell_get (grid s) d)"
      by blast
  }
qed

lemma crossed_solver_facts:
  "is_grid (grid crossed_solver)" "index crossed_solver = blocks_index"
  "length (cells_available_of crossed_solver (randint 0 8 1)) < 2"
  "2 \<le> length (cells_available_of crossed_solver (randint 0 8 0))"
  by code_simp+

lemma crossed_solver_swap:
  "neighbor_sudoku crossed_solver (0, 0, 0) \<noteq> grid crossed_solver"
  "cell_get (neighbor_sudoku crossed_solver (0, 0, 0)) (0, 0) = 5"
  "cell_get (neighbor_sudoku crossed_solver (0, 0, 0)) (1, 1) = 7"
  "cell_get (grid crossed_solver) (0, 0) = 7"
  "cell_get (grid crossed_solver) (1, 1) = 5"
  by code_simp+

text \<open>
  On the grid with 7 at (0, 0) and 5 at (1, 1): block 1 has no mutable cell and the
  grid comes back as it is; block 0 has the two mutable cells (0, 0) and (1, 1), and
  the grid that comes back is another one, with 5 and 7 exchanged.
\<close>

theorem neighbor_sudoku_noop_or_swap_witness:
  "card {c \<in> set (blocks_index ! randint 0 8 1). c \<notin> set (pre_filled_indexes crossed_solver)} < 2
   \<and> neighbor_sudoku crossed_solver (1, 0, 0) = grid crossed_solver
   \<and> 2 \<le> card {c \<in> set (blocks_index ! randint 0 8 0). c \<notin> set (pre_filled_indexes crossed_solver)}
   \<and> neighbor_sudoku crossed_solver (0, 0, 0) \<noteq> grid crossed_solver
   \<and> cell_get (neighbor_sudoku crossed_solver (0, 0, 0)) (0, 0) = cell_get (grid crossed_solver) (1, 1)
   \<and> cell_get (neighbor_sudoku crossed_solver (0, 0, 0)) (1, 1) = cell_get (grid crossed_solver) (0, 0)
   \<and> (\<exists>c1 c2. c1 \<noteq> c2
        \<and> c1 \<in> set (blocks_index ! randint 0 8 0) \<and> c2 \<in> set (blocks_index ! randint 0 8 0)
        \<and> c1 \<notin> set (pre_filled_indexes crossed_solver) \<and> c2 \<notin> set (pre_filled_indexes crossed_solver)
        \<and> cell_get (neighbor_sudoku crossed_solver (0, 0, 0)) c1 = cell_get (grid crossed_solver) c2
        \<and> cell_get (neighbor_sudoku crossed_solver (0, 0, 0)) c2 = cell_get (grid crossed_solver) c1
        \<and> (\<forall>d. d \<noteq> c1 \<and> d \<noteq> c2
              \<longrightarrow> cell_get (neighbor_sudoku crossed_solver (0, 0, 0)) d = cell_get (grid crossed_solver) d))"
proof -
  have k: "randint 0 8 1 < 9" "randint 0 8 0 < 9" by (rule randint_range)+
  have few: "card {c \<in> set (blocks_index ! randint 0 8 1). c \<notin> set (pre_filled_indexes crossed_solver)} < 2"
    using crossed_solver_facts(3)
    by (simp only: cells_available_length[OF crossed_solver_facts(2) k(1)])
  have two: "2 \<le> card {c \<in> set (blocks_index ! randint 0 8 0). c \<notin> set (pre_filled_indexes crossed_solver)}"
    using crossed_solver_facts(4)
    by (simp only: cells_available_length[OF crossed_solver_facts(2) k(2)])
  have "neighbor_sudoku crossed_solver (1, 0, 0) = grid crossed_solver"
    using neighbor_sudoku_noop_or_swap[OF crossed_solver_facts(1,2), of 1 0 0] few by blast
  moreover have "\<exists>c1 c2. c1 \<noteq> c2
        \<and> c1 \<in> set (blocks_index ! randint 0 8 0) \<and> c2 \<in> set (blocks_index ! randint 0 8 0)
        \<and> c1 \<notin> set (pre_filled_indexes crossed_solver) \<and> c2 \<notin> set (pre_filled_indexes crossed_solver)
        \<and> cell_get (neighbor_sudoku crossed_solver (0, 0, 0)) c1 = cell_get (grid crossed_solver) c2
        \<and> cell_get (neighbor_sudoku crossed_solver (0, 0, 0)) c2 = cell_get (grid crossed_solver) c1
        \<and> (\<forall>d. d \<noteq> c1 \<and> d \<noteq> c2
              \<longrightarrow> cell_get (neighbor_sudoku crossed_solver (0, 0, 0)) d = cell_get (grid crossed_solver) d)"
    using neighbor_sudoku_noop_or_swap[OF crossed_solver_facts(1,2), of 0 0 0] two by blast
  ultimately show ?thesis
    using few two crossed_solver_swap by (simp only: simp_thms)
qed

lemma neighbor_sudoku_is_grid:
  assumes "is_grid (grid s)" "index s = blocks_index"
  shows "is_grid (neighbor_sudoku s mv)"
proof -
  obtain b p q where mv: "mv = (b, p, q)" by (cases mv)
  show ?thesis
  proof (cases "length (cells_available_of s (randint 0 8 b)) < 2")
    case True
    then show ?thesis using assms(1) by (simp add: mv neighbor_sudoku_noop)
  next
    case False
    then have two: "2 \<le> length (cells_available_of s (randint 0 8 b))" by simp
    obtain c1 c2 where n: "neighbor_sudoku s (b, p, q) = swap_cells (grid s) c1 c2"
      using neighbor_sudoku_swap[OF assms(2) two] by blast
    show ?thesis unfolding mv n using assms(1) by (simp add: swap_cells_def is_grid_cell_set)
  qed
qed

lemma neighbor_sudoku_keeps:
  assumes "is_grid (grid s)" "index s = blocks_index"
  shows "(\<forall>c \<in> set (pre_filled_indexes s). cell_get (neighbor_sudoku s mv) c = cell_get (grid s) c)
       \<and> (\<forall>k<9. mset (block_of (neighbor_sudoku s mv) (index s ! k))
                = mset (block_of (grid s) (index s ! k)))"
proof -
  obtain b p q where mv: "mv = (b, p, q)" by (cases mv)
  let ?k = "randint 0 8 b"
  show ?thesis
  proof (cases "length (cells_available_of s ?k) < 2")
    case True
    then show ?thesis by (simp add: mv neighbor_sudoku_noop)
  next
    case False
    then have two: "2 \<le> length (cells_available_of s ?k)" by simp
    obtain c1 c2 where n: "neighbor_sudoku s (b, p, q) = swap_cells (grid s) c1 c2"
      and c1: "c1 \<in> set (cells_available_of s ?k)"
      and c2: "c2 \<in> set (cells_available_of s ?k)"
      using neighbor_sudoku_swap[OF assms(2) two] by blast
    have k: "?k < 9" by (rule randint_range)
    have in1: "c1 \<in> set (blocks_index ! ?k)" and in2: "c2 \<in> set (blocks_index ! ?k)"
      using cells_available_props(2)[OF assms(2) k] c1 c2 by auto
    have r1: "fst c1 < 9" "snd c1 < 9" and r2: "fst c2 < 9" "snd c2 < 9"
      using in_block_range[OF blocks_index_nth_mem[OF k]] in1 in2 by blast+
    have f1: "c1 \<notin> set (pre_filled_indexes s)" and f2: "c2 \<notin> set (pre_filled_indexes s)"
      using cells_available_props(3)[OF assms(2) k] c1 c2 by blast+
    note sw = swap_cells_props[OF assms(1) r1 r2]
    have fixed: "\<forall>c \<in> set (pre_filled_indexes s). cell_get (neighbor_sudoku s mv) c = cell_get (grid s) c"
    proof
      fix c assume "c \<in> set (pre_filled_indexes s)"
      with f1 f2 have "c \<noteq> c1" "c \<noteq> c2" by auto
      then show "cell_get (neighbor_sudoku s mv) c = cell_get (grid s) c"
        unfolding mv n by (rule sw(4))
    qed
    have blocks: "\<forall>j<9. mset (block_of (neighbor_sudoku s mv) (index s ! j))
                = mset (block_of (grid s) (index s ! j))"
    proof (intro allI impI)
      fix j :: nat assume j: "j < 9"
      show "mset (block_of (neighbor_sudoku s mv) (index s ! j)) = mset (block_of (grid s) (index s ! j))"
      proof (cases "j = ?k")
        case True
        have "mset (map (cell_get (swap_cells (grid s) c1 c2)) (blocks_index ! ?k))
            = mset (map (cell_get (grid s)) (blocks_index ! ?k))"
          using block_distinct[OF blocks_index_nth_mem[OF k]] in1 in2 sw(2) sw(3) sw(4)
          by (rule swap_mset)
        then show ?thesis unfolding mv n assms(2) True block_of_def .
      next
        case False
        have "\<forall>d \<in> set (blocks_index ! j). d \<noteq> c1 \<and> d \<noteq> c2"
          using blocks_disjoint_nth[OF k j] False in1 in2 by blast
        then have "\<forall>d \<in> set (blocks_index ! j).
            cell_get (swap_cells (grid s) c1 c2) d = cell_get (grid s) d"
          using sw(4) by blast
        then have "map (cell_get (swap_cells (grid s) c1 c2)) (blocks_index ! j)
            = map (cell_get (grid s)) (blocks_index ! j)"
          by (simp only: map_eq_conv)
        then show ?thesis unfolding mv n assms(2) block_of_def by (simp only:)
      qed
    qed
    from fixed blocks show ?thesis ..
  qed
qed

text \<open>
  C4. Whatever block and cells are drawn, the grid returned by \<open>neighbor_sudoku\<close> agrees
  with the working grid on every pre-filled cell, and each of the 9 blocks holds the
  same multiset of values as before.
\<close>

theorem neighbor_sudoku_preserves:
  assumes "is_grid (grid s)" "index s = blocks_index"
  shows "(\<forall>c \<in> set (pre_filled_indexes s). cell_get (neighbor_sudoku s mv) c = cell_get (grid s) c)
       \<and> (\<forall>k<9. mset (block_of (neighbor_sudoku s mv) (index s ! k))
                = mset (block_of (grid s) (index s ! k)))"
  using assms by (rule neighbor_sudoku_keeps)

theorem neighbor_sudoku_preserves_witness:
  "cell_get (neighbor_sudoku crossed_solver (0, 0, 0)) (0, 1) = cell_get (grid crossed_solver) (0, 1)
   \<and> mset (block_of (neighbor_sudoku crossed_solver (0, 0, 0)) (index crossed_solver ! 0))
       = mset (block_of (grid crossed_solver) (index crossed_solver ! 0))"
proof -
  have "(0, 1) \<in> set (pre_filled_indexes crossed_solver)" by code_simp
  then show ?thesis
    using neighbor_sudoku_preserves[OF crossed_solver_facts(1,2), of "(0, 0, 0)"] by simp
qed

subsection \<open>random_matrix\<close>

lemma remove_fixed_filter:
  "remove_fixed sudoku cs L
     = filter (\<lambda>v. v \<notin> set (filter (\<lambda>v. v \<noteq> 0) (map (cell_get sudoku) cs))) L"
proof (induction cs arbitrary: L)
  case Nil
  show ?case by simp
next
  case (Cons c cs)
  show ?case
    by (cases "cell_get sudoku c = 0") (auto simp: Cons.IH intro: filter_cong)
qed

lemma fill_block_frame:
  "d \<notin> set cs \<Longrightarrow> cell_get (fill_block cs L g) d = cell_get g d"
  by (induction cs L g rule: fill_block.induct) (auto simp: cell_get_set_other)

lemma fill_block_keeps_nonzero:
  "cell_get g d \<noteq> 0 \<Longrightarrow> cell_get (fill_block cs L g) d = cell_get g d"
proof (induction cs L g rule: fill_block.induct)
  case (1 L result)
  show ?case by simp
next
  case (2 block blocks L result)
  show ?case
  proof (cases "length L \<noteq> 0 \<and> cell_get result block = 0")
    case True
    with "2.prems" have "d \<noteq> block" by auto
    then have "cell_get (cell_set result block (hd L)) d = cell_get result d"
      by (rule cell_get_set_other)
    with True "2.IH"(1) "2.prems" show ?thesis by simp
  next
    case False
    with "2.IH"(2) "2.prems" show ?thesis by auto
  qed
qed

lemma fill_block_is_grid: "is_grid g \<Longrightarrow> is_grid (fill_block cs L g)"
  by (induction cs L g rule: fill_block.induct) (auto simp: is_grid_cell_set)

lemma fill_block_mset:
  assumes "distinct cs" "\<forall>c \<in> set cs. fst c < 9 \<and> snd c < 9" "is_grid g"
    and "length (filter (\<lambda>c. cell_get g c = 0) cs) \<le> length L"
  shows "mset (map (cell_get (fill_block cs L g)) cs)
       = mset (filter (\<lambda>v. v \<noteq> 0) (map (cell_get g) cs))
         + mset (take (length (filter (\<lambda>c. cell_get g c = 0) cs)) L)"
  using assms
proof (induction cs arbitrary: L g)
  case Nil
  show ?case by simp
next
  case (Cons c cs)
  have notin: "c \<notin> set cs" and dist: "distinct cs" using Cons.prems(1) by simp_all
  have rng: "\<forall>c \<in> set cs. fst c < 9 \<and> snd c < 9" and rc: "fst c < 9" "snd c < 9"
    using Cons.prems(2) by simp_all
  show ?case
  proof (cases "cell_get g c = 0")
    case True
    with Cons.prems(4) obtain x L' where L: "L = x # L'" by (cases L) auto
    let ?g' = "cell_set g c x"
    have same: "\<forall>d \<in> set cs. cell_get ?g' d = cell_get g d"
    proof
      fix d assume "d \<in> set cs"
      with notin have "d \<noteq> c" by blast
      then show "cell_get ?g' d = cell_get g d" by (rule cell_get_set_other)
    qed
    then have m: "map (cell_get ?g') cs = map (cell_get g) cs" by (simp only: map_eq_conv)
    have f: "filter (\<lambda>c. cell_get ?g' c = 0) cs = filter (\<lambda>c. cell_get g c = 0) cs"
      using same by (intro filter_cong) simp_all
    have le: "length (filter (\<lambda>c. cell_get ?g' c = 0) cs) \<le> length L'"
      using Cons.prems(4) True unfolding f L by simp
    have ih: "mset (map (cell_get (fill_block cs L' ?g')) cs)
       = mset (filter (\<lambda>v. v \<noteq> 0) (map (cell_get g) cs))
         + mset (take (length (filter (\<lambda>c. cell_get g c = 0) cs)) L')"
      using Cons.IH[OF dist rng is_grid_cell_set[OF Cons.prems(3)] le] unfolding m f .
    have hd: "cell_get (fill_block cs L' ?g') c = x"
      using notin Cons.prems(3) rc by (simp add: fill_block_frame cell_get_set_same)
    have step: "fill_block (c # cs) L g = fill_block cs L' ?g'" using True L by simp
    show ?thesis unfolding step using True ih by (simp add: hd L)
  next
    case False
    have le: "length (filter (\<lambda>c. cell_get g c = 0) cs) \<le> length L"
      using Cons.prems(4) False by simp
    have hd: "cell_get (fill_block cs L g) c = cell_get g c"
      using notin by (rule fill_block_frame)
    have step: "fill_block (c # cs) L g = fill_block cs L g" using False by simp
    show ?thesis
      unfolding step using False Cons.IH[OF dist rng Cons.prems(3) le] by (simp add: hd)
  qed
qed

lemma length_filter_zero:
  "length (filter (\<lambda>c. f c = (0::int)) cs) + length (filter (\<lambda>v. v \<noteq> 0) (map f cs)) = length cs"
  by (induction cs) auto

text \<open>One block: the fixed values and what is left of the shuffle make up 1..9.\<close>

lemma fill_one_block:
  assumes "distinct b" "length b = 9" "\<forall>c \<in> set b. fst c < 9 \<and> snd c < 9" "is_grid g"
    and agree: "\<forall>c \<in> set b. cell_get g c = cell_get sudoku c"
    and range: "\<forall>c \<in> set b. 0 \<le> cell_get sudoku c \<and> cell_get sudoku c \<le> 9"
    and nodup: "distinct (filter (\<lambda>v. v \<noteq> 0) (map (cell_get sudoku) b))"
    and perm: "mset L = mset [1..9]"
  shows "mset (map (cell_get (fill_block b (remove_fixed sudoku b L) g)) b) = mset [1..9]"
proof -
  let ?N = "filter (\<lambda>v. v \<noteq> 0) (map (cell_get sudoku) b)"
  let ?L1 = "filter (\<lambda>v. v \<notin> set ?N) L"
  have m: "map (cell_get g) b = map (cell_get sudoku) b"
    using agree by (simp only: map_eq_conv)
  have z: "filter (\<lambda>c. cell_get g c = 0) b = filter (\<lambda>c. cell_get sudoku c = 0) b"
    using agree by (intro filter_cong) simp_all
  have setL: "set L = {1..9}"
  proof -
    have "set L = set_mset (mset L)" by simp
    also have "\<dots> = set [1..9]" unfolding perm by simp
    finally show ?thesis by simp
  qed
  have dL: "distinct L" using perm by (metis distinct_upto mset_eq_imp_distinct_iff)
  have subN: "set ?N \<subseteq> set L" using range unfolding setL by auto
  have "set (filter (\<lambda>v. v \<in> set ?N) L) = set ?N" using subN by auto
  moreover have "distinct (filter (\<lambda>v. v \<in> set ?N) L)" using dL by simp
  ultimately have inN: "mset (filter (\<lambda>v. v \<in> set ?N) L) = mset ?N"
    using nodup by (simp only: set_eq_iff_mset_eq_distinct)
  have "mset L = mset (filter (\<lambda>v. v \<in> set ?N) L) + mset (filter (\<lambda>v. \<not> v \<in> set ?N) L)"
    by (simp only: mset_filter multiset_partition[symmetric])
  then have split: "mset ?N + mset ?L1 = mset [1..9]" unfolding inN perm by simp
  then have "length (?N @ ?L1) = length [1..(9::int)]"
    by (metis mset_append mset_eq_length)
  moreover have "length [1..(9::int)] = 9" by simp
  ultimately have "length ?N + length ?L1 = 9" by (simp only: length_append)
  moreover have "length (filter (\<lambda>c. cell_get sudoku c = 0) b) + length ?N = 9"
    using length_filter_zero[of "cell_get sudoku" b] assms(2) by simp
  ultimately have len: "length (filter (\<lambda>c. cell_get sudoku c = 0) b) = length ?L1" by simp
  have "mset (map (cell_get (fill_block b ?L1 g)) b)
       = mset (filter (\<lambda>v. v \<noteq> 0) (map (cell_get g) b))
         + mset (take (length (filter (\<lambda>c. cell_get g c = 0) b)) ?L1)"
    using assms(1,3,4) by (rule fill_block_mset) (simp add: z len)
  also have "\<dots> = mset ?N + mset ?L1" unfolding m z len by simp
  finally show ?thesis unfolding remove_fixed_filter split .
qed

lemma random_matrix_loop_props:
  assumes "distinct (concat bs)" "set bs \<subseteq> set blocks_index" "length shufs = length bs"
    and "\<forall>L \<in> set shufs. mset L = mset [1..9]"
    and "is_grid g"
    and "\<forall>b \<in> set bs. \<forall>c \<in> set b. cell_get g c = cell_get sudoku c"
    and "\<forall>b \<in> set bs. \<forall>c \<in> set b. 0 \<le> cell_get sudoku c \<and> cell_get sudoku c \<le> 9"
    and "\<forall>b \<in> set bs. distinct (filter (\<lambda>v. v \<noteq> 0) (map (cell_get sudoku) b))"
  shows "is_grid (random_matrix_loop sudoku bs shufs g)
       \<and> (\<forall>d. d \<notin> set (concat bs) \<longrightarrow> cell_get (random_matrix_loop sudoku bs shufs g) d = cell_get g d)
       \<and> (\<forall>d. cell_get g d \<noteq> 0 \<longrightarrow> cell_get (random_matrix_loop sudoku bs shufs g) d = cell_get g d)
       \<and> (\<forall>b \<in> set bs. mset (map (cell_get (random_matrix_loop sudoku bs shufs g)) b) = mset [1..9])"
  using assms
proof (induction bs arbitrary: shufs g)
  case Nil
  then show ?case by simp
next
  case (Cons b bs)
  from Cons.prems(3) obtain L sh where sh: "shufs = L # sh" by (cases shufs) auto
  let ?g1 = "fill_block b (remove_fixed sudoku b L) g"
  let ?r = "random_matrix_loop sudoku bs sh ?g1"
  have step: "random_matrix_loop sudoku (b # bs) shufs g = ?r" by (simp add: sh)
  have bmem: "b \<in> set blocks_index" using Cons.prems(2) by simp
  have db: "distinct b" and dbs: "distinct (concat bs)"
    and disj: "set b \<inter> set (concat bs) = {}"
    using Cons.prems(1) by auto
  have lb: "length b = 9"
    using bmem unfolding blocks_index_eval by auto
  have rb: "\<forall>c \<in> set b. fst c < 9 \<and> snd c < 9" using in_block_range[OF bmem] by blast
  have g1: "is_grid ?g1" using Cons.prems(5) by (rule fill_block_is_grid)
  have blk: "mset (map (cell_get ?g1) b) = mset [1..9]"
    using db lb rb Cons.prems(5) by (rule fill_one_block) (use Cons.prems sh in simp_all)
  have agree1: "\<forall>b' \<in> set bs. \<forall>c \<in> set b'. cell_get ?g1 c = cell_get sudoku c"
  proof (intro ballI)
    fix b' c assume b': "b' \<in> set bs" and c: "c \<in> set b'"
    then have "c \<in> set (concat bs)" by auto
    with disj have "c \<notin> set b" by auto
    then have "cell_get ?g1 c = cell_get g c" by (rule fill_block_frame)
    with Cons.prems(6) b' c show "cell_get ?g1 c = cell_get sudoku c" by simp
  qed
  have ih: "is_grid ?r
       \<and> (\<forall>d. d \<notin> set (concat bs) \<longrightarrow> cell_get ?r d = cell_get ?g1 d)
       \<and> (\<forall>d. cell_get ?g1 d \<noteq> 0 \<longrightarrow> cell_get ?r d = cell_get ?g1 d)
       \<and> (\<forall>b \<in> set bs. mset (map (cell_get ?r) b) = mset [1..9])"
    using dbs _ _ _ g1 agree1 by (rule Cons.IH) (use Cons.prems sh in simp_all)
  have c1: "is_grid ?r" using ih by blast
  have ih2: "\<And>d. d \<notin> set (concat bs) \<Longrightarrow> cell_get ?r d = cell_get ?g1 d" using ih by blast
  have ih3: "\<And>d. cell_get ?g1 d \<noteq> 0 \<Longrightarrow> cell_get ?r d = cell_get ?g1 d" using ih by blast
  have ih4: "\<forall>b \<in> set bs. mset (map (cell_get ?r) b) = mset [1..9]" using ih by blast
  have c2: "\<forall>d. d \<notin> set (concat (b # bs)) \<longrightarrow> cell_get ?r d = cell_get g d"
  proof (intro allI impI)
    fix d assume "d \<notin> set (concat (b # bs))"
    then have d: "d \<notin> set b" "d \<notin> set (concat bs)" by auto
    have "cell_get ?r d = cell_get ?g1 d" using d(2) by (rule ih2)
    also have "\<dots> = cell_get g d" using d(1) by (rule fill_block_frame)
    finally show "cell_get ?r d = cell_get g d" .
  qed
  have c3: "\<forall>d. cell_get g d \<noteq> 0 \<longrightarrow> cell_get ?r d = cell_get g d"
  proof (intro allI impI)
    fix d assume nz: "cell_get g d \<noteq> 0"
    then have e: "cell_get ?g1 d = cell_get g d" by (rule fill_block_keeps_nonzero)
    with nz have "cell_get ?g1 d \<noteq> 0" by simp
    then have "cell_get ?r d = cell_get ?g1 d" by (rule ih3)
    with e show "cell_get ?r d = cell_get g d" by (simp only:)
  qed
  have "\<forall>c \<in> set b. cell_get ?r c = cell_get ?g1 c" using ih2 disj by blast
  then have "map (cell_get ?r) b = map (cell_get ?g1) b" by (simp only: map_eq_conv)
  with blk have c4b: "mset (map (cell_get ?r) b) = mset [1..9]" by (simp only:)
  have c4: "\<forall>b' \<in> set (b # bs). mset (map (cell_get ?r) b') = mset [1..9]"
    using c4b ih4 by simp
  show ?case unfolding step using c1 c2 c3 c4 by blast
qed


lemma in_range_cell:
  "is_grid g \<Longrightarrow> in_range g \<Longrightarrow> fst c < 9 \<Longrightarrow> snd c < 9
     \<Longrightarrow> 0 \<le> cell_get g c \<and> cell_get g c \<le> 9"
  by (simp add: is_grid_def in_range_def list_all_length cell_get_def)

lemma no_zero_of_blocks_perm:
  assumes "is_grid g" "blocks_perm g"
  shows "no_zero g"
proof -
  have "\<forall>i<9. \<forall>j<9. g ! i ! j \<noteq> 0"
    using blocks_perm_value[OF assms(2)] by force
  then show ?thesis
    using assms(1) by (simp add: no_zero_def is_grid_def list_all_length)
qed

lemma random_matrix_props:
  assumes "wf_puzzle puzzle" "shuffles_ok shufs"
  shows "is_grid (random_matrix blocks_index shufs puzzle)"
    and "blocks_perm (random_matrix blocks_index shufs puzzle)"
    and "\<And>d. cell_get puzzle d \<noteq> 0
            \<Longrightarrow> cell_get (random_matrix blocks_index shufs puzzle) d = cell_get puzzle d"
proof -
  have g: "is_grid puzzle" and r: "in_range puzzle"
    and nd: "\<forall>b \<in> set blocks_index. distinct (filter (\<lambda>v. v \<noteq> 0) (map (cell_get puzzle) b))"
    using assms(1) by (simp_all add: wf_puzzle_def list_all_iff block_of_def)
  have len: "length shufs = length blocks_index"
    and perm: "\<forall>L \<in> set shufs. mset L = mset [1..9]"
    using assms(2) by (simp_all add: shuffles_ok_def list_all_iff blocks_index_length)
  have rng: "\<forall>b \<in> set blocks_index. \<forall>c \<in> set b. 0 \<le> cell_get puzzle c \<and> cell_get puzzle c \<le> 9"
    using in_block_range in_range_cell[OF g r] by blast
  have all: "is_grid (random_matrix_loop puzzle blocks_index shufs puzzle)
       \<and> (\<forall>d. d \<notin> set (concat blocks_index)
              \<longrightarrow> cell_get (random_matrix_loop puzzle blocks_index shufs puzzle) d = cell_get puzzle d)
       \<and> (\<forall>d. cell_get puzzle d \<noteq> 0
              \<longrightarrow> cell_get (random_matrix_loop puzzle blocks_index shufs puzzle) d = cell_get puzzle d)
       \<and> (\<forall>b \<in> set blocks_index.
              mset (map (cell_get (random_matrix_loop puzzle blocks_index shufs puzzle)) b) = mset [1..9])"
    using blocks_index_distinct subset_refl len perm g _ rng nd
    by (rule random_matrix_loop_props) simp
  show "is_grid (random_matrix blocks_index shufs puzzle)"
    unfolding random_matrix_def using all by blast
  show "blocks_perm (random_matrix blocks_index shufs puzzle)"
    unfolding random_matrix_def blocks_perm_def block_of_def list_all_iff using all by blast
  show "\<And>d. cell_get puzzle d \<noteq> 0
            \<Longrightarrow> cell_get (random_matrix blocks_index shufs puzzle) d = cell_get puzzle d"
    unfolding random_matrix_def using all by blast
qed

lemma keeps_prefilledI:
  "(\<And>d. cell_get puzzle d \<noteq> 0 \<Longrightarrow> cell_get g d = cell_get puzzle d) \<Longrightarrow> keeps_prefilled puzzle g"
  by (simp add: keeps_prefilled_def list_all_iff)

text \<open>
  C3. For a 9x9 puzzle with entries 0..9 whose pre-filled cells repeat no value inside
  a block, and whatever the shuffles give, \<open>random_matrix\<close> returns a 9x9 grid with no
  zero cell, with every pre-filled cell at its original value, and with each of 1..9
  exactly once in every block.
\<close>

theorem random_matrix_postcondition:
  assumes "wf_puzzle puzzle" "shuffles_ok shufs"
  shows "is_grid (random_matrix blocks_index shufs puzzle)
       \<and> no_zero (random_matrix blocks_index shufs puzzle)
       \<and> keeps_prefilled puzzle (random_matrix blocks_index shufs puzzle)
       \<and> blocks_perm (random_matrix blocks_index shufs puzzle)"
  using random_matrix_props[OF assms]
  by (simp add: no_zero_of_blocks_perm keeps_prefilledI)

lemma two_empty_facts:
  "wf_puzzle two_empty_puzzle" "shuffles_ok seven_first"
  "random_matrix blocks_index seven_first two_empty_puzzle = crossed_grid"
  by code_simp+

theorem random_matrix_postcondition_witness:
  "wf_puzzle two_empty_puzzle \<and> shuffles_ok seven_first
   \<and> is_grid crossed_grid \<and> no_zero crossed_grid
   \<and> keeps_prefilled two_empty_puzzle crossed_grid \<and> blocks_perm crossed_grid"
  using random_matrix_postcondition[OF two_empty_facts(1,2)] two_empty_facts by simp

subsection \<open>The stored score\<close>

lemma walk_step_synced: "score_synced (fst (walk_step (s, l) mv))"
  by (simp add: walk_step_def score_synced_def Let_def)

lemma anneal_step_cases:
  "anneal_step s (mv, r) = s
   \<or> anneal_step s (mv, r) = s\<lparr>grid := neighbor_sudoku s mv, grid_score := compute_error (neighbor_sudoku s mv)\<rparr>"
  by (simp add: anneal_step_def Let_def)

lemma anneal_step_synced: "score_synced s \<Longrightarrow> score_synced (anneal_step s rnd)"
  using anneal_step_cases[of s "fst rnd" "snd rnd"] by (auto simp: score_synced_def)

lemma initial_state_synced: "score_synced (initial_state puzzle shufs)"
  by (simp add: initial_state_def score_synced_def Let_def)

lemma run_state_synced: "run_state puzzle shufs s \<Longrightarrow> score_synced s"
proof (induction rule: run_state.induct)
  case constructed
  show ?case by (rule initial_state_synced)
next
  case (walked s l mv)
  show ?case by (rule walk_step_synced)
next
  case (annealed s rnd)
  from annealed.IH show ?case by (rule anneal_step_synced)
next
  case (assigned s t n c)
  from assigned.IH show ?case by (simp add: score_synced_def)
qed

text \<open>The states that the model's loops pass through are states of a run.\<close>

lemma walk_fold_run_state:
  "run_state puzzle shufs s
     \<Longrightarrow> run_state puzzle shufs (fst (fold (\<lambda>k st. walk_step st (moves k)) ks (s, l)))"
proof (induction ks arbitrary: s l)
  case Nil
  then show ?case by simp
next
  case (Cons k ks)
  obtain s' l' where w: "walk_step (s, l) (moves k) = (s', l')" by (cases "walk_step (s, l) (moves k)")
  have "run_state puzzle shufs (fst (walk_step (s, l) (moves k)))"
    using Cons.prems by (rule run_state.walked)
  then have "run_state puzzle shufs s'" by (simp add: w)
  then have "run_state puzzle shufs (fst (fold (\<lambda>k st. walk_step st (moves k)) ks (s', l')))"
    by (rule Cons.IH)
  then show ?case by (simp add: w)
qed

lemma solver_init_run_state: "run_state puzzle shufs (solver_init puzzle cooling shufs moves)"
proof -
  have "run_state puzzle shufs (fst (walk_loop (initial_state puzzle shufs) moves))"
    unfolding walk_loop_def by (rule walk_fold_run_state) (rule run_state.constructed)
  then show ?thesis
    unfolding solver_init_def init_temperature_def
    by (auto split: prod.splits intro: run_state.assigned)
qed

lemma inner_loop_run_state:
  "run_state puzzle shufs s \<Longrightarrow> inner_loop n tape k s = Inr s' \<Longrightarrow> run_state puzzle shufs s'"
proof (induction n arbitrary: k s)
  case 0
  then show ?case by simp
next
  case (Suc n)
  have a: "run_state puzzle shufs (anneal_step s (tape k))"
    using Suc.prems(1) by (rule run_state.annealed)
  from Suc.prems(2) have "inner_loop n tape (Suc k) (anneal_step s (tape k)) = Inr s'"
    by (simp add: Let_def split: if_splits)
  with a show ?case by (rule Suc.IH)
qed

lemma epoch_run_state:
  assumes "run_state puzzle shufs s" "epoch tape (reheats, s) = Inr (reheats', s')"
  shows "run_state puzzle shufs s'"
proof -
  from assms(2) obtain s1 where i: "inner_loop (limit s) tape 0 s = Inr s1"
    and s': "s' = s1\<lparr>temperature := temperature s1 * cooling_rate s1\<rparr>
           \<or> s' = s1\<lparr>temperature := temperature s1 * cooling_rate s1 + 2\<rparr>"
    by (auto simp: epoch_def Let_def split: if_splits sum.splits)
  have r1: "run_state puzzle shufs s1" using assms(1) i by (rule inner_loop_run_state)
  have "\<And>t. run_state puzzle shufs (s1\<lparr>temperature := t\<rparr>)"
    using run_state.assigned[OF r1, where n = "limit s1" and c = "cooling_rate s1"] by simp
  with s' show ?thesis by auto
qed

lemma after_epochs_run_state:
  "run_state puzzle shufs s \<Longrightarrow> after_epochs n tape (reheats, s) = Some (reheats', s')
     \<Longrightarrow> run_state puzzle shufs s'"
proof (induction n arbitrary: reheats' s')
  case 0
  then show ?case by simp
next
  case (Suc n)
  from Suc.prems(2) obtain rh1 s1 where a: "after_epochs n tape (reheats, s) = Some (rh1, s1)"
    and e: "epoch (tape n) (rh1, s1) = Inr (reheats', s')"
    by (auto split: option.splits sum.splits)
  have "run_state puzzle shufs s1" using Suc.prems(1) a by (rule Suc.IH)
  then show ?case using e by (rule epoch_run_state)
qed

text \<open>
  C10. At every state between the operations of a run (after construction, after each
  step of the walk of \<open>init_temperature\<close>, after each inner-loop iteration of \<open>solve\<close>)
  the field \<open>grid_score\<close> is \<open>compute_error\<close> of the working grid; so the test
  \<open>grid_score \<le> 0\<close> of \<open>solve\<close> holds exactly when re-scoring the grid gives 0. The
  finished object and every state that the loop of \<open>solve\<close> reaches are such states.
\<close>

theorem grid_score_synchronized:
  "(run_state puzzle shufs s
      \<longrightarrow> grid_score s = compute_error (grid s)
          \<and> (grid_score s \<le> 0 \<longleftrightarrow> compute_error (grid s) = 0))
   \<and> run_state puzzle shufs (solver_init puzzle cooling shufs moves)
   \<and> (run_state puzzle shufs s \<and> after_epochs n tape (reheats, s) = Some (reheats', s')
        \<longrightarrow> run_state puzzle shufs s')
   \<and> (run_state puzzle shufs s \<and> inner_loop m tp k s = Inr s''
        \<longrightarrow> run_state puzzle shufs s'')"
proof (intro conjI impI)
  assume r: "run_state puzzle shufs s"
  then show "grid_score s = compute_error (grid s)"
    using run_state_synced by (simp add: score_synced_def)
  then show "grid_score s \<le> 0 \<longleftrightarrow> compute_error (grid s) = 0"
    using compute_error_nonneg[of "grid s"] by auto
next
  show "run_state puzzle shufs (solver_init puzzle cooling shufs moves)"
    by (rule solver_init_run_state)
next
  assume "run_state puzzle shufs s \<and> after_epochs n tape (reheats, s) = Some (reheats', s')"
  then show "run_state puzzle shufs s'" using after_epochs_run_state by blast
next
  assume "run_state puzzle shufs s \<and> inner_loop m tp k s = Inr s''"
  then show "run_state puzzle shufs s''" using inner_loop_run_state by blast
qed


theorem grid_score_synchronized_witness:
  "run_state two_empty_puzzle seven_first (initial_state two_empty_puzzle seven_first)
   \<and> grid_score (initial_state two_empty_puzzle seven_first)
       = compute_error (grid (initial_state two_empty_puzzle seven_first))
   \<and> after_epochs 0 (\<lambda>e k. ((0, 0, 0), 0)) (0, initial_state two_empty_puzzle seven_first)
       = Some (0, initial_state two_empty_puzzle seven_first)
   \<and> inner_loop 0 (\<lambda>k. ((0, 0, 0), 0)) 0 (initial_state two_empty_puzzle seven_first)
       = Inr (initial_state two_empty_puzzle seven_first)"
  using grid_score_synchronized[of two_empty_puzzle seven_first
      "initial_state two_empty_puzzle seven_first"]
    run_state.constructed[of two_empty_puzzle seven_first]
  by simp

subsection \<open>What a run keeps true\<close>

lemma argwhere_nonzero_set:
  assumes "is_grid p"
  shows "set (argwhere_nonzero p) = {c. fst c < 9 \<and> snd c < 9 \<and> cell_get p c \<noteq> 0}"
proof -
  have l: "length p = 9" and r: "\<And>i. i < 9 \<Longrightarrow> length (p ! i) = 9"
    using assms by (simp_all add: is_grid_def list_all_length)
  show ?thesis
    unfolding argwhere_nonzero_def cell_get_def by (auto simp: l r)
qed

lemma keeps_prefilled_iff:
  "keeps_prefilled puzzle g
     \<longleftrightarrow> (\<forall>c. fst c < 9 \<and> snd c < 9 \<and> cell_get puzzle c \<noteq> 0 \<longrightarrow> cell_get g c = cell_get puzzle c)"
  unfolding keeps_prefilled_def list_all_iff all_cells_set by auto

lemma blocks_perm_iff:
  "blocks_perm g \<longleftrightarrow> (\<forall>k<9. mset (block_of g (blocks_index ! k)) = mset [1..9])"
  unfolding blocks_perm_def list_all_length blocks_index_length ..

lemma neighbor_inv:
  assumes "is_grid puzzle" "solver_inv puzzle s"
  shows "solver_inv puzzle
           (s\<lparr>grid := neighbor_sudoku s mv, grid_score := compute_error (neighbor_sudoku s mv)\<rparr>)"
proof -
  have idx: "index s = blocks_index" and pf: "pre_filled_indexes s = argwhere_nonzero puzzle"
    and g: "is_grid (grid s)" and bp: "blocks_perm (grid s)"
    and kp: "keeps_prefilled puzzle (grid s)"
    using assms(2) by (simp_all add: solver_inv_def)
  note keep = neighbor_sudoku_keeps[OF g idx, of mv]
  have fixed: "\<And>c. c \<in> set (pre_filled_indexes s)
      \<Longrightarrow> cell_get (neighbor_sudoku s mv) c = cell_get (grid s) c"
    using keep by blast
  have blocks: "\<And>k. k < 9 \<Longrightarrow> mset (block_of (neighbor_sudoku s mv) (blocks_index ! k))
      = mset (block_of (grid s) (blocks_index ! k))"
    using keep unfolding idx by blast
  have "blocks_perm (neighbor_sudoku s mv)"
    using bp unfolding blocks_perm_iff by (simp add: blocks)
  moreover have "keeps_prefilled puzzle (neighbor_sudoku s mv)"
    unfolding keeps_prefilled_iff
  proof (intro allI impI)
    fix c assume c: "fst c < 9 \<and> snd c < 9 \<and> cell_get puzzle c \<noteq> 0"
    then have "c \<in> set (pre_filled_indexes s)"
      unfolding pf argwhere_nonzero_set[OF assms(1)] by simp
    then have "cell_get (neighbor_sudoku s mv) c = cell_get (grid s) c" by (rule fixed)
    also have "\<dots> = cell_get puzzle c" using kp c unfolding keeps_prefilled_iff by blast
    finally show "cell_get (neighbor_sudoku s mv) c = cell_get puzzle c" .
  qed
  moreover have "is_grid (neighbor_sudoku s mv)" using g idx by (rule neighbor_sudoku_is_grid)
  ultimately show ?thesis using idx pf by (simp add: solver_inv_def score_synced_def)
qed

lemma run_state_inv:
  assumes "wf_puzzle puzzle" "shuffles_ok shufs"
  shows "run_state puzzle shufs s \<Longrightarrow> solver_inv puzzle s"
proof (induction rule: run_state.induct)
  case constructed
  note rm = random_matrix_props[OF assms]
  have "keeps_prefilled puzzle (random_matrix blocks_index shufs puzzle)"
    using rm(3) by (rule keeps_prefilledI)
  then show ?case
    using rm(1,2) by (simp add: solver_inv_def initial_state_def Let_def score_synced_def)
next
  case (walked s l mv)
  have g: "is_grid puzzle" using assms(1) by (simp add: wf_puzzle_def)
  show ?case using neighbor_inv[OF g walked.IH, of mv] by (simp add: walk_step_def Let_def)
next
  case (annealed s rnd)
  have g: "is_grid puzzle" using assms(1) by (simp add: wf_puzzle_def)
  show ?case
    using anneal_step_cases[of s "fst rnd" "snd rnd"] neighbor_inv[OF g annealed.IH, of "fst rnd"]
      annealed.IH
    by auto
next
  case (assigned s t n c)
  from assigned.IH show ?case by (simp add: solver_inv_def score_synced_def)
qed

lemma digits_of_blocks_perm:
  assumes "is_grid g" "blocks_perm g"
  shows "digits g"
proof -
  have "\<forall>i<9. \<forall>j<9. 1 \<le> g ! i ! j \<and> g ! i ! j \<le> 9"
    using blocks_perm_value[OF assms(2)] by force
  then show ?thesis
    using assms(1) by (simp add: digits_def is_grid_def list_all_length)
qed

lemma solved_state:
  assumes "solver_inv puzzle s" "compute_error (grid s) = 0"
  shows "is_grid (grid s) \<and> digits (grid s) \<and> valid_solution (grid s)
       \<and> keeps_prefilled puzzle (grid s)"
proof -
  have g: "is_grid (grid s)" and bp: "blocks_perm (grid s)"
    and kp: "keeps_prefilled puzzle (grid s)"
    using assms(1) by (simp_all add: solver_inv_def)
  have "valid_solution (grid s)"
    using assms(2) compute_error_zero_distinct[OF g] rows_cols_distinct_valid[OF g bp] by simp
  with g kp digits_of_blocks_perm[OF g bp] show ?thesis by simp
qed

subsection \<open>What solve returns\<close>

lemma inner_loop_returns:
  "run_state puzzle shufs s \<Longrightarrow> inner_loop n tape k s = Inl g
     \<Longrightarrow> \<exists>s'. run_state puzzle shufs s' \<and> g = grid s' \<and> grid_score s' \<le> 0"
proof (induction n arbitrary: k s)
  case 0
  then show ?case by simp
next
  case (Suc n)
  have a: "run_state puzzle shufs (anneal_step s (tape k))"
    using Suc.prems(1) by (rule run_state.annealed)
  show ?case
  proof (cases "grid_score (anneal_step s (tape k)) \<le> 0")
    case True
    with Suc.prems(2) have "g = grid (anneal_step s (tape k))" by (simp add: Let_def)
    with a True show ?thesis by blast
  next
    case False
    with Suc.prems(2) have "inner_loop n tape (Suc k) (anneal_step s (tape k)) = Inl g"
      by (simp add: Let_def)
    with a show ?thesis by (rule Suc.IH)
  qed
qed

lemma epoch_returns:
  assumes "run_state puzzle shufs s" "epoch tape (reheats, s) = Inl g"
  shows "\<exists>s'. run_state puzzle shufs s' \<and> g = grid s' \<and> compute_error g = 0"
proof (cases "compute_error (grid s) = 0")
  case True
  with assms(2) have "g = grid s" by (simp add: epoch_def)
  with True assms(1) show ?thesis by blast
next
  case False
  with assms(2) have "inner_loop (limit s) tape 0 s = Inl g"
    by (auto simp: epoch_def Let_def split: sum.splits if_splits)
  then obtain s' where s': "run_state puzzle shufs s'" "g = grid s'" "grid_score s' \<le> 0"
    using inner_loop_returns[OF assms(1)] by blast
  have "grid_score s' = compute_error (grid s')"
    using run_state_synced[OF s'(1)] by (simp add: score_synced_def)
  with s'(3) compute_error_nonneg[of "grid s'"] have "compute_error (grid s') = 0" by simp
  with s' show ?thesis by blast
qed

lemma solve_loop_returns:
  "run_state puzzle shufs s \<Longrightarrow> solve_loop fuel tape e (reheats, s) = Some g
     \<Longrightarrow> \<exists>s'. run_state puzzle shufs s' \<and> g = grid s' \<and> compute_error g = 0"
proof (induction fuel arbitrary: e reheats s)
  case 0
  then show ?case by simp
next
  case (Suc fuel)
  show ?case
  proof (cases "epoch (tape e) (reheats, s)")
    case (Inl g')
    with Suc.prems(2) have "g' = g" by simp
    with Inl Suc.prems(1) show ?thesis using epoch_returns by blast
  next
    case (Inr st)
    obtain rh s1 where st: "st = (rh, s1)" by (cases st)
    have r1: "run_state puzzle shufs s1"
      using Suc.prems(1) Inr unfolding st by (rule epoch_run_state)
    from Suc.prems(2) Inr have "solve_loop fuel tape (Suc e) (rh, s1) = Some g" by (simp add: st)
    with r1 show ?thesis by (rule Suc.IH)
  qed
qed

text \<open>
  C1. For a well-formed puzzle (9x9, entries 0..9, no value twice among the pre-filled
  cells of a block), whatever the random draws and the cooling rate: if \<open>solve\<close>
  returns, the grid returned is 9x9 with entries 1..9, is a valid Sudoku solution, and
  holds the puzzle's value at every pre-filled cell.
\<close>

theorem solve_partial_correctness:
  assumes "wf_puzzle puzzle" "shuffles_ok shufs"
    and "solve fuel tape (solver_init puzzle cooling shufs moves) = Some result"
  shows "is_grid result \<and> digits result \<and> valid_solution result \<and> keeps_prefilled puzzle result"
proof -
  have "run_state puzzle shufs (solver_init puzzle cooling shufs moves)"
    by (rule solver_init_run_state)
  then obtain s' where s': "run_state puzzle shufs s'" "result = grid s'" "compute_error result = 0"
    using assms(3) solve_loop_returns unfolding solve_def by blast
  have "solver_inv puzzle s'" using assms(1,2) s'(1) by (rule run_state_inv)
  then show ?thesis using s'(3) unfolding s'(2) by (rule solved_state)
qed

subsection \<open>Two runs, step by step\<close>

lemma neighbor_sudoku_scalars:
  "neighbor_sudoku (s\<lparr>temperature := t, limit := n, cooling_rate := c\<rparr>) mv = neighbor_sudoku s mv"
  by (simp add: neighbor_sudoku_def cells_available_of_def)

lemma np_std_constant: "np_std (replicate (Suc n) v) = 0"
proof -
  have "sum_list (replicate (Suc n) v) = int (Suc n) * v"
    by (rule sum_list_replicate)
  then have m: "np_mean (replicate (Suc n) v) = real_of_int v"
    unfolding np_mean_def by (simp del: replicate_Suc of_nat_Suc add: field_simps)
  have "(\<Sum>x\<leftarrow>replicate (Suc n) v. (real_of_int x - real_of_int v)\<^sup>2) = 0"
    by (simp del: replicate_Suc add: map_replicate sum_list_replicate)
  then show ?thesis unfolding np_std_def m by simp
qed

lemma walk_step_still:
  assumes "neighbor_sudoku s mv = grid s" "grid_score s = compute_error (grid s)"
  shows "walk_step (s, l) mv = (s, l @ [grid_score s])"
  using assms by (simp add: walk_step_def Let_def)

lemma walk_fold_still:
  assumes "\<And>k. neighbor_sudoku s (moves k) = grid s" "grid_score s = compute_error (grid s)"
  shows "fold (\<lambda>k st. walk_step st (moves k)) ks (s, l) = (s, l @ replicate (length ks) (grid_score s))"
proof (induction ks arbitrary: l)
  case Nil
  show ?case by simp
next
  case (Cons k ks)
  show ?case
    by (simp add: walk_step_still[OF assms(1)[of k] assms(2)] Cons.IH replicate_app_Cons_same)
qed

lemma init_temperature_still:
  assumes "\<And>k. neighbor_sudoku s (moves k) = grid s" "grid_score s = compute_error (grid s)"
  shows "init_temperature s moves = (0, s)"
proof -
  have "walk_loop s moves = (s, replicate (Suc 9) (grid_score s))"
    unfolding walk_loop_def walk_fold_still[OF assms] by simp
  then show ?thesis
    unfolding init_temperature_def by (simp only: prod.case np_std_constant)
qed

lemma crossed_eval:
  "initial_state two_empty_puzzle seven_first = crossed_solver"
  "neighbor_sudoku crossed_solver (1, 0, 0) = grid crossed_solver"
  "neighbor_sudoku crossed_solver (0, 0, 0) = solved_grid"
  "grid_score crossed_solver = compute_error (grid crossed_solver)"
  "compute_error solved_grid = 0"
  "count_zero two_empty_puzzle = 2"
  by code_simp+

lemma skewed_eval:
  "initial_state four_empty_puzzle three_first = skewed_solver"
  "neighbor_sudoku skewed_solver (1, 0, 0) = grid skewed_solver"
  "grid_score skewed_solver = compute_error (grid skewed_solver)"
  "compute_error (neighbor_sudoku skewed_solver (0, 0, 2)) = 4"
  "neighbor_sudoku skewed_solver (0, 0, 2) \<noteq> grid skewed_solver"
  "count_zero four_empty_puzzle = 4"
  "grid_score skewed_solver = 4"
  by code_simp+

lemma crossed_init:
  "solver_init two_empty_puzzle c seven_first still_moves
     = crossed_solver\<lparr>temperature := 0, limit := 2, cooling_rate := c\<rparr>"
proof -
  have "init_temperature crossed_solver still_moves = (0, crossed_solver)"
    by (rule init_temperature_still) (simp_all only: still_moves_def crossed_eval)
  then show ?thesis
    unfolding solver_init_def crossed_eval(1) by (simp add: crossed_eval(6))
qed

lemma skewed_init:
  "solver_init four_empty_puzzle c three_first still_moves
     = skewed_solver\<lparr>temperature := 0, limit := 4, cooling_rate := c\<rparr>"
proof -
  have "init_temperature skewed_solver still_moves = (0, skewed_solver)"
    by (rule init_temperature_still) (simp_all only: still_moves_def skewed_eval(2,3))
  then show ?thesis
    unfolding solver_init_def skewed_eval(1) by (simp add: skewed_eval(6))
qed


lemma crossed_score: "grid_score crossed_solver = 4" "grid crossed_solver = crossed_grid"
  by (simp_all add: crossed_solver_def)

lemma crossed_anneal:
  "anneal_step (crossed_solver\<lparr>temperature := 0, limit := 2, cooling_rate := c\<rparr>) ((0, 0, 0), r)
     = crossed_solver\<lparr>temperature := 0, limit := 2, cooling_rate := c,
                      grid := solved_grid, grid_score := 0\<rparr>"
  by (simp add: anneal_step_def Let_def neighbor_sudoku_scalars crossed_eval(3,5) acceptance_def
      np_div_def crossed_score)

lemma crossed_solve:
  "solve 1 (\<lambda>e k. ((0, 0, 0), 0)) (solver_init two_empty_puzzle c seven_first still_moves)
     = Some solved_grid"
proof -
  let ?s = "crossed_solver\<lparr>temperature := 0, limit := 2, cooling_rate := c\<rparr>"
  have ne: "compute_error (grid ?s) \<noteq> 0"
    using crossed_eval(4) by (simp add: crossed_score)
  have "inner_loop (Suc (Suc 0)) (\<lambda>k. ((0, 0, 0), 0)) 0 ?s = Inl solved_grid"
    by (simp only: inner_loop.simps Let_def crossed_anneal) simp
  then have "epoch (\<lambda>k. ((0, 0, 0), 0)) (0, ?s) = Inl solved_grid"
    using ne by (simp add: epoch_def numeral_2_eq_2)
  then have "solve_loop (Suc 0) (\<lambda>e k. ((0, 0, 0), 0)) 0 (0, ?s) = Some solved_grid"
    by (simp only: solve_loop.simps) simp
  then show ?thesis unfolding solve_def crossed_init by simp
qed

theorem solve_partial_correctness_witness:
  "wf_puzzle two_empty_puzzle \<and> shuffles_ok seven_first
   \<and> solve 1 (\<lambda>e k. ((0, 0, 0), 0)) (solver_init two_empty_puzzle (99 / 100) seven_first still_moves)
       = Some solved_grid
   \<and> is_grid solved_grid \<and> digits solved_grid \<and> valid_solution solved_grid
   \<and> keeps_prefilled two_empty_puzzle solved_grid"
  using solve_partial_correctness[OF two_empty_facts(1,2) crossed_solve[of "99 / 100"]]
    two_empty_facts(1,2) crossed_solve[of "99 / 100"]
  by simp

subsection \<open>init_temperature\<close>

lemma neighbor_sudoku_score:
  "neighbor_sudoku (s\<lparr>grid := g, grid_score := c\<rparr>) mv = neighbor_sudoku (s\<lparr>grid := g\<rparr>) mv"
  by (simp add: neighbor_sudoku_def cells_available_of_def)

lemma walk_fold_grids:
  "fold (\<lambda>k st. walk_step st (moves k)) [0..<Suc n] (s, [])
     = (s\<lparr>grid := walk_grids s moves (Suc n),
          grid_score := compute_error (walk_grids s moves (Suc n))\<rparr>,
        map (\<lambda>k. compute_error (walk_grids s moves (Suc k))) [0..<Suc n])"
proof (induction n)
  case 0
  show ?case by (simp add: walk_step_def Let_def)
next
  case (Suc n)
  have "fold (\<lambda>k st. walk_step st (moves k)) [0..<Suc (Suc n)] (s, [])
      = walk_step (fold (\<lambda>k st. walk_step st (moves k)) [0..<Suc n] (s, [])) (moves (Suc n))"
    by (simp only: upt_Suc_append[of 0 "Suc n"] fold_append comp_def fold_simps)
  also have "\<dots> = (s\<lparr>grid := walk_grids s moves (Suc (Suc n)),
          grid_score := compute_error (walk_grids s moves (Suc (Suc n)))\<rparr>,
        map (\<lambda>k. compute_error (walk_grids s moves (Suc k))) [0..<Suc (Suc n)])"
    unfolding Suc.IH by (simp add: walk_step_def Let_def neighbor_sudoku_score)
  finally show ?case .
qed

text \<open>
  C7. \<open>init_temperature\<close> makes exactly 10 neighbor moves, the move \<open>k + 1\<close> from the grid
  that move \<open>k\<close> produced (a walk, not 10 neighbors of one grid), records the error
  count after each, and returns \<open>np.std\<close> of the 10 counts, which is the population
  standard deviation (the root of the mean squared deviation from the mean). It
  leaves the working grid and the stored score at the 10th grid of the walk, and that
  is the grid and score of the finished object, from which \<open>solve\<close> starts.
\<close>

theorem init_temperature_is_walk:
  "init_temperature s moves
     = (np_std (walk_scores s moves),
        s\<lparr>grid := walk_grids s moves 10, grid_score := compute_error (walk_grids s moves 10)\<rparr>)
   \<and> length (walk_scores s moves) = 10
   \<and> np_std (walk_scores s moves)
       = sqrt ((\<Sum>x\<leftarrow>walk_scores s moves.
                  (real_of_int x - real_of_int (sum_list (walk_scores s moves)) / 10)\<^sup>2) / 10)
   \<and> grid (solver_init puzzle cooling shufs moves)
       = walk_grids (initial_state puzzle shufs) moves 10
   \<and> grid_score (solver_init puzzle cooling shufs moves)
       = compute_error (walk_grids (initial_state puzzle shufs) moves 10)
   \<and> temperature (solver_init puzzle cooling shufs moves)
       = np_std (walk_scores (initial_state puzzle shufs) moves)"
proof -
  have ten: "(10::nat) = Suc 9" by simp
  have w: "\<And>s. walk_loop s moves
     = (s\<lparr>grid := walk_grids s moves 10, grid_score := compute_error (walk_grids s moves 10)\<rparr>,
        walk_scores s moves)"
    unfolding walk_loop_def walk_scores_def ten by (rule walk_fold_grids)
  have len: "length (walk_scores s moves) = 10" by (simp add: walk_scores_def)
  have i: "\<And>s. init_temperature s moves
     = (np_std (walk_scores s moves),
        s\<lparr>grid := walk_grids s moves 10, grid_score := compute_error (walk_grids s moves 10)\<rparr>)"
    unfolding init_temperature_def w by simp
  have std: "np_std (walk_scores s moves)
       = sqrt ((\<Sum>x\<leftarrow>walk_scores s moves.
                  (real_of_int x - real_of_int (sum_list (walk_scores s moves)) / 10)\<^sup>2) / 10)"
    unfolding np_std_def np_mean_def len by simp
  show ?thesis
    using i[of s] len std by (simp add: solver_init_def i)
qed

subsection \<open>The acceptance test\<close>

lemma anneal_step_accept:
  "anneal_step s (mv, r)
     = (if fless (np_uniform 1 0 r) (acceptance s (compute_error (neighbor_sudoku s mv)))
        then accept s mv else s)"
  by (simp add: anneal_step_def accept_def Let_def)

lemma acceptance_positive:
  "temperature s \<noteq> 0 \<Longrightarrow> acceptance s (compute_error (neighbor_sudoku s mv)) = Fin (metropolis_p s mv)"
  by (simp add: acceptance_def np_div_def metropolis_p_def)

lemma acceptance_zero:
  "temperature s = 0 \<Longrightarrow> 0 \<le> u \<Longrightarrow>
     fless u (acceptance s sc) \<longleftrightarrow> sc < grid_score s"
  by (simp add: acceptance_def np_div_def)

text \<open>
  C5, as the code has it. The draw is \<open>np.random.uniform(1, 0)\<close>, that is \<open>1 - r\<close> for a
  sample \<open>r\<close> of [0, 1), so it lies in (0, 1]. With a positive temperature the
  acceptance probability is \<open>p = exp ((currentScore - neighborScore) / temperature)\<close>
  and the neighbor is accepted exactly when the draw is less than \<open>p\<close>; an improving
  move is then always accepted, and a neutral move is accepted whenever the draw is
  below 1. With temperature 0 the quotient is an infinity or a NaN: an improving move
  is accepted, a neutral or worsening one is not.
\<close>

theorem acceptance_rule:
  assumes "0 \<le> r" "r < 1"
  shows "0 < np_uniform 1 0 r \<and> np_uniform 1 0 r \<le> 1
       \<and> (0 < temperature s \<longrightarrow>
            acceptance s (compute_error (neighbor_sudoku s mv)) = Fin (metropolis_p s mv)
          \<and> anneal_step s (mv, r)
              = (if np_uniform 1 0 r < metropolis_p s mv then accept s mv else s)
          \<and> (compute_error (neighbor_sudoku s mv) < grid_score s
                \<longrightarrow> 1 < metropolis_p s mv \<and> anneal_step s (mv, r) = accept s mv)
          \<and> (compute_error (neighbor_sudoku s mv) = grid_score s \<and> np_uniform 1 0 r < 1
                \<longrightarrow> metropolis_p s mv = 1 \<and> anneal_step s (mv, r) = accept s mv))
       \<and> (temperature s = 0 \<longrightarrow>
            anneal_step s (mv, r)
              = (if compute_error (neighbor_sudoku s mv) < grid_score s then accept s mv else s))"
proof (intro conjI impI)
  show d0: "0 < np_uniform 1 0 r" and d1: "np_uniform 1 0 r \<le> 1"
    using assms by (simp_all add: np_uniform_def)
  {
    assume t: "0 < temperature s"
    then have tne: "temperature s \<noteq> 0" by simp
    show a: "acceptance s (compute_error (neighbor_sudoku s mv)) = Fin (metropolis_p s mv)"
      using tne by (rule acceptance_positive)
    show st: "anneal_step s (mv, r)
              = (if np_uniform 1 0 r < metropolis_p s mv then accept s mv else s)"
      unfolding anneal_step_accept a by simp
    {
      assume "compute_error (neighbor_sudoku s mv) < grid_score s"
      then have "0 < real_of_int (grid_score s - compute_error (neighbor_sudoku s mv)) / temperature s"
        using t by simp
      then show p: "1 < metropolis_p s mv" unfolding metropolis_p_def by simp
      with d1 show "anneal_step s (mv, r) = accept s mv" unfolding st by simp
    }
    {
      assume n: "compute_error (neighbor_sudoku s mv) = grid_score s \<and> np_uniform 1 0 r < 1"
      then show p: "metropolis_p s mv = 1" unfolding metropolis_p_def by simp
      with n show "anneal_step s (mv, r) = accept s mv" unfolding st by simp
    }
  }
  {
    assume "temperature s = 0"
    then show "anneal_step s (mv, r)
              = (if compute_error (neighbor_sudoku s mv) < grid_score s then accept s mv else s)"
      unfolding anneal_step_accept using d0 by (simp add: acceptance_zero)
  }
qed

lemma skewed_score: "grid_score skewed_solver = 4" "grid skewed_solver = skewed_grid"
  "temperature skewed_solver = 0"
  by (simp_all add: skewed_solver_def)

lemma neighbor_sudoku_temperature:
  "neighbor_sudoku (s\<lparr>temperature := t\<rparr>) mv = neighbor_sudoku s mv"
  by (simp add: neighbor_sudoku_def cells_available_of_def)

theorem acceptance_rule_witness:
  "anneal_step (crossed_solver\<lparr>temperature := 2\<rparr>) ((0, 0, 0), 0)
     = accept (crossed_solver\<lparr>temperature := 2\<rparr>) (0, 0, 0)
   \<and> anneal_step (skewed_solver\<lparr>temperature := 2\<rparr>) ((0, 0, 2), 1 / 2)
       = accept (skewed_solver\<lparr>temperature := 2\<rparr>) (0, 0, 2)
   \<and> anneal_step skewed_solver ((0, 0, 2), 1 / 2) = skewed_solver"
proof -
  have "anneal_step (crossed_solver\<lparr>temperature := 2\<rparr>) ((0, 0, 0), 0)
     = accept (crossed_solver\<lparr>temperature := 2\<rparr>) (0, 0, 0)"
    using acceptance_rule[of 0 "crossed_solver\<lparr>temperature := 2\<rparr>" "(0, 0, 0)"]
    by (simp add: neighbor_sudoku_temperature crossed_eval(3,5) crossed_score)
  moreover have "anneal_step (skewed_solver\<lparr>temperature := 2\<rparr>) ((0, 0, 2), 1 / 2)
       = accept (skewed_solver\<lparr>temperature := 2\<rparr>) (0, 0, 2)"
    using acceptance_rule[of "1 / 2" "skewed_solver\<lparr>temperature := 2\<rparr>" "(0, 0, 2)"]
    by (simp add: neighbor_sudoku_temperature skewed_eval(4) skewed_score np_uniform_def)
  moreover have "anneal_step skewed_solver ((0, 0, 2), 1 / 2) = skewed_solver"
    using acceptance_rule[of "1 / 2" skewed_solver "(0, 0, 2)"]
    by (simp add: skewed_eval(4) skewed_score)
  ultimately show ?thesis by blast
qed

lemma skewed_anneal_neutral:
  "anneal_step (skewed_solver\<lparr>temperature := 0, limit := 4, cooling_rate := c\<rparr>) ((0, 0, 2), r)
     = skewed_solver\<lparr>temperature := 0, limit := 4, cooling_rate := c\<rparr>"
  by (simp add: anneal_step_def Let_def neighbor_sudoku_scalars skewed_eval(4) acceptance_def
      np_div_def skewed_score)

text \<open>
  C5 as stated fails where it says that a score-neutral move is always accepted. On the
  puzzle with four empty cells, when the walk of \<open>init_temperature\<close> draws the full
  block 1 ten times, the ten scores are equal and the temperature is 0. The swap of
  (0, 0) and (1, 1) then leaves the score at 4 and changes the grid, and with the draw
  \<open>1 - 1/2\<close> the iteration keeps the old state.
\<close>

theorem neutral_move_rejected:
  "compute_error (neighbor_sudoku
       (solver_init four_empty_puzzle (99 / 100) three_first still_moves) (0, 0, 2))
     = grid_score (solver_init four_empty_puzzle (99 / 100) three_first still_moves)
   \<and> neighbor_sudoku (solver_init four_empty_puzzle (99 / 100) three_first still_moves) (0, 0, 2)
       \<noteq> grid (solver_init four_empty_puzzle (99 / 100) three_first still_moves)
   \<and> anneal_step (solver_init four_empty_puzzle (99 / 100) three_first still_moves)
         ((0, 0, 2), 1 / 2)
       = solver_init four_empty_puzzle (99 / 100) three_first still_moves"
  unfolding skewed_init
  by (simp add: skewed_anneal_neutral neighbor_sudoku_scalars skewed_eval(4,5) skewed_score(1))

subsection \<open>The temperature\<close>

lemma np_std_nonneg: "0 \<le> np_std xs"
proof -
  have "0 \<le> (\<Sum>x\<leftarrow>xs. (real_of_int x - np_mean xs)\<^sup>2)"
    by (rule sum_list_nonneg) auto
  then show ?thesis unfolding np_std_def by simp
qed

lemma anneal_step_scalars:
  "temperature (anneal_step s rnd) = temperature s"
  "cooling_rate (anneal_step s rnd) = cooling_rate s"
  "limit (anneal_step s rnd) = limit s"
  using anneal_step_cases[of s "fst rnd" "snd rnd"] by auto

lemma inner_loop_scalars:
  "inner_loop n tape k s = Inr s'
     \<Longrightarrow> temperature s' = temperature s \<and> cooling_rate s' = cooling_rate s"
proof (induction n arbitrary: k s)
  case 0
  then show ?case by simp
next
  case (Suc n)
  from Suc.prems have "inner_loop n tape (Suc k) (anneal_step s (tape k)) = Inr s'"
    by (simp add: Let_def split: if_splits)
  then have "temperature s' = temperature (anneal_step s (tape k))
      \<and> cooling_rate s' = cooling_rate (anneal_step s (tape k))"
    by (rule Suc.IH)
  then show ?case by (simp add: anneal_step_scalars)
qed

lemma epoch_temperature:
  assumes "epoch tape (reheats, s) = Inr (reheats', s')"
  shows "temperature s' = temperature s * cooling_rate s
           + (if grid_score s \<le> grid_score s' \<and> 80 \<le> reheats then 2 else 0)"
    and "cooling_rate s' = cooling_rate s"
proof -
  from assms obtain s1 where i: "inner_loop (limit s) tape 0 s = Inr s1"
    by (auto simp: epoch_def Let_def split: if_splits sum.splits)
  note sc = inner_loop_scalars[OF i]
  let ?rh = "if grid_score s \<le> grid_score s1 then reheats + 1 else 0"
  let ?s2 = "s1\<lparr>temperature := temperature s1 * cooling_rate s1\<rparr>"
  have e: "Inr (reheats', s')
      = (if 80 < ?rh then Inr (0, ?s2\<lparr>temperature := temperature ?s2 + 2\<rparr>) else Inr (?rh, ?s2))"
    using assms i by (simp add: epoch_def Let_def split: if_splits)
  have b: "80 < ?rh \<longleftrightarrow> grid_score s \<le> grid_score s1 \<and> 80 \<le> reheats" by auto
  show "temperature s' = temperature s * cooling_rate s
           + (if grid_score s \<le> grid_score s' \<and> 80 \<le> reheats then 2 else 0)"
  proof (cases "80 < ?rh")
    case True
    with e have "s' = ?s2\<lparr>temperature := temperature ?s2 + 2\<rparr>" by simp
    then show ?thesis using True b sc by simp
  next
    case False
    with e have "s' = ?s2" by simp
    then show ?thesis using False b sc by simp
  qed
  show "cooling_rate s' = cooling_rate s"
    using e sc by (cases "80 < ?rh") auto
qed

lemma after_epochs_nonneg:
  assumes "0 < c"
  shows "after_epochs n tape (reheats, s) = Some (reheats', s')
     \<Longrightarrow> 0 \<le> temperature s \<Longrightarrow> cooling_rate s = c
     \<Longrightarrow> 0 \<le> temperature s' \<and> cooling_rate s' = c"
proof (induction n arbitrary: reheats' s')
  case 0
  then show ?case by simp
next
  case (Suc n)
  from Suc.prems(1) obtain rh1 s1 where a: "after_epochs n tape (reheats, s) = Some (rh1, s1)"
    and e: "epoch (tape n) (rh1, s1) = Inr (reheats', s')"
    by (auto split: option.splits sum.splits)
  have s1: "0 \<le> temperature s1" "cooling_rate s1 = c"
    using Suc.IH[OF a Suc.prems(2,3)] by simp_all
  have "0 \<le> temperature s1 * cooling_rate s1" using s1 assms by simp
  then show ?case using epoch_temperature[OF e] s1 by simp
qed

lemma solver_init_scalars:
  "temperature (solver_init puzzle cooling shufs moves)
     = np_std (snd (walk_loop (initial_state puzzle shufs) moves))"
  "cooling_rate (solver_init puzzle cooling shufs moves) = cooling"
  by (simp_all add: solver_init_def init_temperature_def split: prod.splits)

text \<open>
  C6, as the code has it. The temperature that the constructor stores is a standard
  deviation, so it is never negative, but it is 0 when the ten scores of the walk are
  equal. An inner-loop iteration leaves it alone; each pass of the loop of \<open>solve\<close>
  multiplies it by the cooling rate and then adds 2 when the reheat counter passes 80.
  With a cooling rate in (0, 1) it therefore stays non-negative through every pass; a
  pass without a reheating bump never raises it, and a pass with one leaves it at 2 or
  more. Neither a positive value nor a strict decrease is stated: 0 stays 0, and the
  product of two doubles may round to the temperature itself or to 0.
\<close>

theorem temperature_schedule:
  assumes "0 < cooling" "cooling < 1"
  shows "0 \<le> temperature (solver_init puzzle cooling shufs moves)
       \<and> temperature (anneal_step s rnd) = temperature s
       \<and> (after_epochs n tape (0, solver_init puzzle cooling shufs moves) = Some (reheats, s1)
            \<longrightarrow> 0 \<le> temperature s1 \<and> cooling_rate s1 = cooling)
       \<and> (epoch tp (reheats0, s0) = Inr (reheats', s')
            \<longrightarrow> temperature s' = temperature s0 * cooling_rate s0
                  + (if grid_score s0 \<le> grid_score s' \<and> 80 \<le> reheats0 then 2 else 0))
       \<and> (epoch tp (reheats0, s0) = Inr (reheats', s') \<and> cooling_rate s0 = cooling
            \<and> 0 \<le> temperature s0
            \<longrightarrow> 0 \<le> temperature s'
                \<and> (\<not> (grid_score s0 \<le> grid_score s' \<and> 80 \<le> reheats0)
                      \<longrightarrow> temperature s' \<le> temperature s0)
                \<and> (grid_score s0 \<le> grid_score s' \<and> 80 \<le> reheats0
                      \<longrightarrow> 2 \<le> temperature s'))"
proof (intro conjI impI)
  show i: "0 \<le> temperature (solver_init puzzle cooling shufs moves)"
    by (simp only: solver_init_scalars np_std_nonneg)
  show "temperature (anneal_step s rnd) = temperature s" by (rule anneal_step_scalars)
  {
    assume a: "after_epochs n tape (0, solver_init puzzle cooling shufs moves) = Some (reheats, s1)"
    have "0 \<le> temperature s1 \<and> cooling_rate s1 = cooling"
      using assms(1) a i solver_init_scalars(2) by (rule after_epochs_nonneg)
    then show "0 \<le> temperature s1" and "cooling_rate s1 = cooling" by simp_all
  }
  {
    assume "epoch tp (reheats0, s0) = Inr (reheats', s')"
    then show "temperature s' = temperature s0 * cooling_rate s0
                  + (if grid_score s0 \<le> grid_score s' \<and> 80 \<le> reheats0 then 2 else 0)"
      by (rule epoch_temperature)
  }
  {
    assume h: "epoch tp (reheats0, s0) = Inr (reheats', s') \<and> cooling_rate s0 = cooling
            \<and> 0 \<le> temperature s0"
    then have t: "temperature s' = temperature s0 * cooling
                  + (if grid_score s0 \<le> grid_score s' \<and> 80 \<le> reheats0 then 2 else 0)"
      using epoch_temperature(1)[of tp reheats0 s0 reheats' s'] by simp
    have pos: "0 \<le> temperature s0 * cooling" using h assms(1) by simp
    then show "0 \<le> temperature s'" unfolding t by simp
    have less: "temperature s0 * cooling \<le> temperature s0"
      using h assms by (simp add: mult_left_le)
    {
      assume "\<not> (grid_score s0 \<le> grid_score s' \<and> 80 \<le> reheats0)"
      then have "temperature s' = temperature s0 * cooling" unfolding t by (simp only: if_False add_0_right)
      then show "temperature s' \<le> temperature s0" using less by simp
    }
    {
      assume "grid_score s0 \<le> grid_score s' \<and> 80 \<le> reheats0"
      then have "temperature s' = temperature s0 * cooling + 2" unfolding t by simp
      then show "2 \<le> temperature s'" using pos by simp
    }
  }
qed


lemma skewed_epoch:
  "epoch (\<lambda>k. ((0, 0, 2), 1 / 2)) (0, skewed_solver\<lparr>temperature := 0, limit := 4, cooling_rate := c\<rparr>)
     = Inr (1, skewed_solver\<lparr>temperature := 0, limit := 4, cooling_rate := c\<rparr>)"
proof -
  let ?s = "skewed_solver\<lparr>temperature := 0, limit := 4, cooling_rate := c\<rparr>"
  have ne: "compute_error (grid ?s) \<noteq> 0"
    using skewed_eval(3) by (simp add: skewed_score(1))
  have gs: "grid_score ?s = 4" by (simp add: skewed_score(1))
  have four: "(4::nat) = Suc (Suc (Suc (Suc 0)))" by simp
  have "inner_loop (Suc (Suc (Suc (Suc 0)))) (\<lambda>k. ((0, 0, 2), 1 / 2)) 0 ?s = Inr ?s"
    by (simp only: inner_loop.simps Let_def skewed_anneal_neutral gs) simp
  then have i: "inner_loop (limit ?s) (\<lambda>k. ((0, 0, 2), 1 / 2)) 0 ?s = Inr ?s"
    by (simp add: four)
  show ?thesis
    unfolding epoch_def using ne by (simp only: prod.case i Let_def) (simp add: skewed_score(1))
qed

text \<open>
  C6 as stated fails where it says that the temperature is positive at all times and
  strictly decreases on every pass without a reheating bump. On the puzzle with four
  empty cells, when the walk of \<open>init_temperature\<close> draws the full block 1 ten times,
  the constructor stores the temperature 0, and the first pass of the loop (four
  rejected neutral moves, reheat counter 1) leaves it at 0.
\<close>

theorem zero_temperature:
  "temperature (solver_init four_empty_puzzle (99 / 100) three_first still_moves) = 0
   \<and> after_epochs 1 (\<lambda>e k. ((0, 0, 2), 1 / 2))
        (0, solver_init four_empty_puzzle (99 / 100) three_first still_moves)
       = Some (1, solver_init four_empty_puzzle (99 / 100) three_first still_moves)"
proof -
  have one: "(1::nat) = Suc 0" by simp
  show ?thesis
    unfolding skewed_init one by (simp add: skewed_epoch)
qed

lemma warm_epoch:
  "epoch tp (0, skewed_solver\<lparr>temperature := 2, cooling_rate := 99 / 100\<rparr>)
     = Inr (1, skewed_solver\<lparr>temperature := 198 / 100, cooling_rate := 99 / 100\<rparr>)"
proof -
  let ?s = "skewed_solver\<lparr>temperature := 2, cooling_rate := 99 / 100\<rparr>"
  have ne: "compute_error (grid ?s) \<noteq> 0"
    using skewed_eval(3) by (simp add: skewed_score(1))
  have l: "limit ?s = 0" by (simp add: skewed_solver_def)
  show ?thesis
    unfolding epoch_def using ne by (simp only: prod.case l inner_loop.simps Let_def) simp
qed

lemma warm_bump_epoch:
  "epoch tp (80, skewed_solver\<lparr>temperature := 2, cooling_rate := 99 / 100\<rparr>)
     = Inr (0, skewed_solver\<lparr>temperature := 398 / 100, cooling_rate := 99 / 100\<rparr>)"
proof -
  let ?s = "skewed_solver\<lparr>temperature := 2, cooling_rate := 99 / 100\<rparr>"
  have ne: "compute_error (grid ?s) \<noteq> 0"
    using skewed_eval(3) by (simp add: skewed_score(1))
  have l: "limit ?s = 0" by (simp add: skewed_solver_def)
  show ?thesis
    unfolding epoch_def using ne by (simp only: prod.case l inner_loop.simps Let_def) simp
qed

theorem temperature_schedule_witness:
  "(0::real) < 99 / 100 \<and> (99 / 100 :: real) < 1
   \<and> 0 \<le> temperature (solver_init four_empty_puzzle (99 / 100) three_first still_moves)
   \<and> after_epochs 1 (\<lambda>e k. ((0, 0, 2), 1 / 2))
        (0, solver_init four_empty_puzzle (99 / 100) three_first still_moves)
       = Some (1, solver_init four_empty_puzzle (99 / 100) three_first still_moves)
   \<and> epoch (\<lambda>k. ((0, 0, 0), 0)) (0, skewed_solver\<lparr>temperature := 2, cooling_rate := 99 / 100\<rparr>)
       = Inr (1, skewed_solver\<lparr>temperature := 198 / 100, cooling_rate := 99 / 100\<rparr>)
   \<and> temperature (skewed_solver\<lparr>temperature := 198 / 100, cooling_rate := 99 / 100\<rparr>)
       \<le> temperature (skewed_solver\<lparr>temperature := 2, cooling_rate := 99 / 100\<rparr>)
   \<and> epoch (\<lambda>k. ((0, 0, 0), 0)) (80, skewed_solver\<lparr>temperature := 2, cooling_rate := 99 / 100\<rparr>)
       = Inr (0, skewed_solver\<lparr>temperature := 398 / 100, cooling_rate := 99 / 100\<rparr>)
   \<and> 2 \<le> temperature (skewed_solver\<lparr>temperature := 398 / 100, cooling_rate := 99 / 100\<rparr>)"
proof -
  have c: "(0::real) < 99 / 100" "(99 / 100 :: real) < 1" by simp_all
  note t = temperature_schedule[OF c, of four_empty_puzzle three_first still_moves _ _
      1 "\<lambda>e k. ((0, 0, 2), 1 / 2)" 1 "solver_init four_empty_puzzle (99 / 100) three_first still_moves"
      "\<lambda>k. ((0, 0, 0), 0)" 0 "skewed_solver\<lparr>temperature := 2, cooling_rate := 99 / 100\<rparr>"
      1 "skewed_solver\<lparr>temperature := 198 / 100, cooling_rate := 99 / 100\<rparr>"]
  have z: "after_epochs 1 (\<lambda>e k. ((0, 0, 2), 1 / 2))
        (0, solver_init four_empty_puzzle (99 / 100) three_first still_moves)
       = Some (1, solver_init four_empty_puzzle (99 / 100) three_first still_moves)"
  proof -
    have one: "(1::nat) = Suc 0" by simp
    show ?thesis
      unfolding skewed_init one by (simp add: skewed_epoch)
  qed
  have "0 \<le> temperature (solver_init four_empty_puzzle (99 / 100) three_first still_moves)"
    using t by blast
  then show ?thesis using c z warm_epoch warm_bump_epoch by simp
qed

end
